theory Spec2Isabelle
  imports Complex_Main "HOL-Library.Monad_Syntax"
begin

section \<open>Numbers\<close>

text \<open>
  The timing fields of a task are JavaScript numbers. The code stores \<^verbatim>\<open>NaN\<close> in a
  field that is not known yet and tests it with \<^verbatim>\<open>Number.isFinite\<close>, so the model keeps
  \<^verbatim>\<open>NaN\<close> as a value of its own. A finite number is modelled by an exact rational:
  rounding and overflow of the binary64 format are not represented, and where the program
  rounds a sum, a difference or a quotient, the model has the exact one.
\<close>

datatype number = Num rat | NaN

fun isFinite :: "number \<Rightarrow> bool" where
  "isFinite (Num x) = True"
| "isFinite NaN = False"

fun num_add :: "number \<Rightarrow> number \<Rightarrow> number" where
  "num_add (Num a) (Num b) = Num (a + b)"
| "num_add _ _ = NaN"

fun num_sub :: "number \<Rightarrow> number \<Rightarrow> number" where
  "num_sub (Num a) (Num b) = Num (a - b)"
| "num_sub _ _ = NaN"

text \<open>The only division of the program is by the literal \<^verbatim>\<open>1000\<close>.\<close>

fun num_div1000 :: "number \<Rightarrow> number" where
  "num_div1000 (Num a) = Num (a / 1000)"
| "num_div1000 NaN = NaN"

text \<open>\<^verbatim>\<open>a <= b\<close> is false as soon as one side is \<^verbatim>\<open>NaN\<close>.\<close>

fun num_le :: "number \<Rightarrow> number \<Rightarrow> bool" where
  "num_le (Num a) (Num b) = (a \<le> b)"
| "num_le _ _ = False"

section \<open>Trace events\<close>

text \<open>
  \<^verbatim>\<open>LH.TraceEvent\<close>: the fields the program reads. \<^verbatim>\<open>args\<close> is a required field of the
  type; its \<^verbatim>\<open>data\<close> member, the \<^verbatim>\<open>url\<close> and the \<^verbatim>\<open>stackTrace\<close> of the data and the
  \<^verbatim>\<open>url\<close> of a call frame may each be \<^verbatim>\<open>undefined\<close> (\<open>None\<close>).
\<close>

record CallFrame =
  frame_url :: "string option"

record ArgsData =
  url :: "string option"
  stackTrace :: "CallFrame list option"

record TraceEvent =
  ph :: string
  name :: string
  ts :: rat
  dur :: "rat option"
  pid :: "nat option"
  tid :: "nat option"
  args_data :: "ArgsData option"

section \<open>The task groups (lib/task-groups.js)\<close>

record TaskGroup =
  id_field :: string
  label :: string
  traceEventNames :: "string list"

text \<open>The object literal \<^verbatim>\<open>taskGroups\<close>, in the order of its keys, every \<^verbatim>\<open>id\<close> still empty.\<close>

definition taskGroups_literal :: "(string \<times> TaskGroup) list" where
  "taskGroups_literal =
    [(''ParseHTML'', \<lparr>id_field = '''', label = ''Parse HTML & CSS'',
        traceEventNames = [''ParseHTML'', ''ParseAuthorStyleSheet'']\<rparr>),
     (''StyleLayout'', \<lparr>id_field = '''', label = ''Style & Layout'',
        traceEventNames = [''ScheduleStyleRecalculation'', ''RecalculateStyles'',
          ''UpdateLayoutTree'', ''InvalidateLayout'', ''Layout'', ''UpdateLayer'',
          ''UpdateLayerTree'']\<rparr>),
     (''PaintCompositeRender'', \<lparr>id_field = '''', label = ''Rendering'',
        traceEventNames = [''Animation'', ''RequestMainThreadFrame'', ''ActivateLayerTree'',
          ''DrawFrame'', ''HitTest'', ''PaintSetup'', ''Paint'', ''PaintImage'', ''Rasterize'',
          ''RasterTask'', ''ScrollLayer'', ''CompositeLayers'']\<rparr>),
     (''ScriptParseCompile'', \<lparr>id_field = '''', label = ''Script Parsing & Compilation'',
        traceEventNames = [''v8.compile'', ''v8.compileModule'', ''v8.parseOnBackground'']\<rparr>),
     (''ScriptEvaluation'', \<lparr>id_field = '''', label = ''Script Evaluation'',
        traceEventNames = [''EventDispatch'', ''EvaluateScript'', ''EvaluateModule'',
          ''FunctionCall'', ''TimerFire'', ''FireIdleCallback'', ''FireAnimationFrame'',
          ''RunMicrotasks'', ''V8.Execute'']\<rparr>),
     (''GarbageCollection'', \<lparr>id_field = '''', label = ''Garbage Collection'',
        traceEventNames = [''GCEvent'', ''MinorGC'', ''MajorGC'',
          ''ThreadState::performIdleLazySweep'', ''ThreadState::completeSweep'',
          ''BlinkGCMarking'']\<rparr>),
     (''Other'', \<lparr>id_field = '''', label = ''Other'',
        traceEventNames = [''MessageLoop::RunTask'',
          ''TaskQueueManager::ProcessTaskFromWorkQueue'',
          ''ThreadControllerImpl::DoWork'']\<rparr>)]"

text \<open>
  The initialisation loop over \<^verbatim>\<open>Object.entries(taskGroups)\<close>: it writes the key of each
  group into its \<^verbatim>\<open>id\<close> and enters every name of the group into \<^verbatim>\<open>taskNameToGroup\<close>
  (a later assignment to a name replaces an earlier one) and into the set
  \<^verbatim>\<open>traceEventNames\<close>.
\<close>

record Registry =
  groups :: "(string \<times> TaskGroup) list"
  nameToGroup :: "string \<rightharpoonup> TaskGroup"
  eventNames :: "string set"

definition addGroup :: "Registry \<Rightarrow> string \<times> TaskGroup \<Rightarrow> Registry" where
  "addGroup r entry =
    (let groupId = fst entry;
         grp = (snd entry)\<lparr>id_field := groupId\<rparr>
     in \<lparr>groups = groups r @ [(groupId, grp)],
         nameToGroup = foldl (\<lambda>m traceEventName. m(traceEventName \<mapsto> grp))
                         (nameToGroup r) (traceEventNames grp),
         eventNames = eventNames r \<union> set (traceEventNames grp)\<rparr>)"

definition registry :: Registry where
  "registry = foldl addGroup \<lparr>groups = [], nameToGroup = Map.empty, eventNames = {}\<rparr>
                taskGroups_literal"

text \<open>
  The three exports of the module, after the loop has run. \<^verbatim>\<open>taskGroups\<close> and
  \<^verbatim>\<open>taskNameToGroup\<close> are plain objects; the two maps are their own properties.
\<close>

definition taskGroups :: "string \<rightharpoonup> TaskGroup" where
  "taskGroups = map_of (groups registry)"

definition taskNameToGroup :: "string \<rightharpoonup> TaskGroup" where
  "taskNameToGroup = nameToGroup registry"

definition traceEventNamesSet :: "string set" where
  "traceEventNamesSet = eventNames registry"

text \<open>
  A read \<^verbatim>\<open>obj[key]\<close> of a plain object that has no own property \<^verbatim>\<open>key\<close> goes on to
  \<^verbatim>\<open>Object.prototype\<close>. What it finds there under one of the names below is a function, or
  for \<^verbatim>\<open>__proto__\<close> the prototype itself: an object that is not a task group, and truthy
  like one. Under every other name the read gives \<^verbatim>\<open>undefined\<close>.
\<close>

datatype property = Group TaskGroup | Inherited string

definition objectPrototypeNames :: "string list" where
  "objectPrototypeNames =
    [''constructor'', ''hasOwnProperty'', ''isPrototypeOf'', ''propertyIsEnumerable'',
     ''toLocaleString'', ''toString'', ''valueOf'', ''__proto__'',
     ''__defineGetter__'', ''__defineSetter__'', ''__lookupGetter__'', ''__lookupSetter__'']"

definition getProperty :: "(string \<rightharpoonup> TaskGroup) \<Rightarrow> string \<Rightarrow> property option" where
  "getProperty obj key =
    (case obj key of
       Some g \<Rightarrow> Some (Group g)
     | None \<Rightarrow> if key \<in> set objectPrototypeNames then Some (Inherited key) else None)"

section \<open>Task nodes (gather/computed/main-thread-tasks.js)\<close>

text \<open>
  A task node is a mutable object that its parent, its children and the array \<^verbatim>\<open>tasks\<close>
  all refer to. Every node is pushed on \<^verbatim>\<open>tasks\<close> right after it is created and never
  removed, so a node is identified with its index in \<^verbatim>\<open>tasks\<close>: \<open>parent\<close> and
  \<open>children\<close> hold indices, and an assignment to a field of a node is an update of the
  list at that index.
\<close>

record TaskNode =
  event :: TraceEvent
  startTime :: number
  endTime :: number
  parent :: "nat option"
  children :: "nat list"
  group :: "property option"
  attributableURL :: "string option"
  duration :: number
  selfTime :: number

text \<open>
  The four failures. The first comes from the tracing processor; the two throws of
  \<^verbatim>\<open>_createTasksFromEvents\<close> carry the same message \<^verbatim>\<open>Fatal trace logic error\<close>, and
  the throw of \<^verbatim>\<open>getMainThreadTasks\<close> the message \<^verbatim>\<open>Invalid task timing data\<close>.
\<close>

datatype error =
    MissingAnchorError
  | UnbalancedTraceError
  | MismatchedEventError
  | InvalidTimingError

text \<open>
  \<^verbatim>\<open>_createNewTaskNode(event, parent)\<close> followed by the \<^verbatim>\<open>tasks.push\<close> that both of its
  callers perform. The default group is read from \<^verbatim>\<open>taskGroups.other\<close>.
\<close>

definition createNewTaskNode :: "TraceEvent \<Rightarrow> nat option \<Rightarrow> TaskNode list \<Rightarrow> TaskNode list" where
  "createNewTaskNode ev par tasks =
    (let newTask = \<lparr>event = ev,
                    startTime = Num (ts ev),
                    endTime = (if ph ev = ''X''
                               then Num (ts ev + (case dur ev of None \<Rightarrow> 0 | Some d \<Rightarrow> d))
                               else NaN),
                    parent = par,
                    children = [],
                    group = getProperty taskGroups ''other'',
                    attributableURL = None,
                    duration = NaN,
                    selfTime = NaN\<rparr>;
         tasks' = (case par of
                     None \<Rightarrow> tasks
                   | Some p \<Rightarrow> tasks[p := (tasks ! p)\<lparr>children := children (tasks ! p) @ [length tasks]\<rparr>])
     in tasks' @ [newTask])"

text \<open>
  The \<^verbatim>\<open>while\<close> loop that leaves the tasks which have ended before the event: it follows
  the parent references, so it is a partial function of an arbitrary task list.
\<close>

partial_function (option) closeOut :: "TaskNode list \<Rightarrow> rat \<Rightarrow> nat option \<Rightarrow> nat option option" where
  "closeOut tasks t currentTask =
    (case currentTask of
       None \<Rightarrow> Some None
     | Some c \<Rightarrow>
         if isFinite (endTime (tasks ! c)) \<and> num_le (endTime (tasks ! c)) (Num t)
         then closeOut tasks t (parent (tasks ! c))
         else Some (Some c))"

declare closeOut.simps [code]

record LoopState =
  tasks_of :: "TaskNode list"
  currentTask_of :: "nat option"

text \<open>The body of the \<^verbatim>\<open>for\<close> loop for an event that has passed the two filters.\<close>

definition processEvent :: "TraceEvent \<Rightarrow> LoopState \<Rightarrow> (error + LoopState) option" where
  "processEvent ev st =
    do {
      cur \<leftarrow> closeOut (tasks_of st) (ts ev) (currentTask_of st);
      (case cur of
         None \<Rightarrow>
           if ph ev = ''E'' then Some (Inl UnbalancedTraceError)
           else Some (Inr \<lparr>tasks_of = createNewTaskNode ev None (tasks_of st),
                          currentTask_of = Some (length (tasks_of st))\<rparr>)
       | Some c \<Rightarrow>
           if ph ev = ''X'' \<or> ph ev = ''B''
           then Some (Inr \<lparr>tasks_of = createNewTaskNode ev (Some c) (tasks_of st),
                           currentTask_of = Some (length (tasks_of st))\<rparr>)
           else if ph (event (tasks_of st ! c)) \<noteq> ''B'' then Some (Inl MismatchedEventError)
           else Some (Inr \<lparr>tasks_of = (tasks_of st)[c := (tasks_of st ! c)\<lparr>endTime := Num (ts ev)\<rparr>],
                           currentTask_of = parent (tasks_of st ! c)\<rparr>))
    }"

fun createLoop :: "TraceEvent \<Rightarrow> TraceEvent list \<Rightarrow> LoopState \<Rightarrow> (error + LoopState) option" where
  "createLoop startedInPageEvt [] st = Some (Inr st)"
| "createLoop startedInPageEvt (ev # evs) st =
    (if pid ev \<noteq> pid startedInPageEvt \<or> tid ev \<noteq> tid startedInPageEvt
     then createLoop startedInPageEvt evs st
     else if ph ev \<noteq> ''X'' \<and> ph ev \<noteq> ''B'' \<and> ph ev \<noteq> ''E''
     then createLoop startedInPageEvt evs st
     else (case processEvent ev st of
             None \<Rightarrow> None
           | Some (Inl e) \<Rightarrow> Some (Inl e)
           | Some (Inr st') \<Rightarrow> createLoop startedInPageEvt evs st'))"

text \<open>
  Modelled from the spec: \<^verbatim>\<open>TraceProcessor.findTracingStartedEvt\<close> (lib/traces/tracing-processor.js)
  is not part of the sources at hand. The spec has it locate the first event that marks the
  start of page tracking and fail when there is none; the marker name is the one the
  repository's test uses.
\<close>

definition findTracingStartedEvt :: "TraceEvent list \<Rightarrow> error + TraceEvent" where
  "findTracingStartedEvt traceEvents =
    (case find (\<lambda>e. name e = ''TracingStartedInPage'') traceEvents of
       None \<Rightarrow> Inl MissingAnchorError
     | Some e \<Rightarrow> Inr e)"

definition createTasksFromEvents :: "TraceEvent list \<Rightarrow> (error + TaskNode list) option" where
  "createTasksFromEvents traceEvents =
    (case findTracingStartedEvt traceEvents of
       Inl e \<Rightarrow> Some (Inl e)
     | Inr startedInPageEvt \<Rightarrow>
         (case createLoop startedInPageEvt traceEvents \<lparr>tasks_of = [], currentTask_of = None\<rparr> of
            None \<Rightarrow> None
          | Some (Inl e) \<Rightarrow> Some (Inl e)
          | Some (Inr st) \<Rightarrow> Some (Inr (tasks_of st))))"

section \<open>The recursive passes\<close>

text \<open>
  \<^verbatim>\<open>task.children.map(f)\<close> and \<^verbatim>\<open>task.children.forEach(f)\<close>, where \<^verbatim>\<open>f\<close> changes the
  tasks it visits: the task list is threaded through the calls, from the first child to
  the last.
\<close>

fun mapChildren :: "(nat \<Rightarrow> 's \<Rightarrow> ('a \<times> 's) option) \<Rightarrow> nat list \<Rightarrow> 's \<Rightarrow> ('a list \<times> 's) option" where
  "mapChildren f [] s = Some ([], s)"
| "mapChildren f (c # cs) s =
    do { (x, s1) \<leftarrow> f c s; (xs, s2) \<leftarrow> mapChildren f cs s1; Some (x # xs, s2) }"

fun forEachChild :: "(nat \<Rightarrow> 's \<Rightarrow> 's option) \<Rightarrow> nat list \<Rightarrow> 's \<Rightarrow> 's option" where
  "forEachChild f [] s = Some s"
| "forEachChild f (c # cs) s = do { s1 \<leftarrow> f c s; forEachChild f cs s1 }"

lemma mapChildren_mono [partial_function_mono]:
  assumes "\<And>c s. mono_option (\<lambda>f. F f c s)"
  shows "mono_option (\<lambda>f. mapChildren (F f) cs s)"
  using assms by (induction cs arbitrary: s) (auto intro!: partial_function_mono)

lemma forEachChild_mono [partial_function_mono]:
  assumes "\<And>c s. mono_option (\<lambda>f. F f c s)"
  shows "mono_option (\<lambda>f. forEachChild (F f) cs s)"
  using assms by (induction cs arbitrary: s) (auto intro!: partial_function_mono)

text \<open>
  \<^verbatim>\<open>_computeRecursiveSelfTime\<close>: the durations of the children are summed from \<^verbatim>\<open>0\<close>,
  from left to right; the result is the duration of the task.
\<close>

partial_function (option) computeRecursiveSelfTime ::
    "nat \<Rightarrow> TaskNode list \<Rightarrow> (number \<times> TaskNode list) option" where
  "computeRecursiveSelfTime task tasks =
    do {
      (durs, tasks1) \<leftarrow> mapChildren computeRecursiveSelfTime (children (tasks ! task)) tasks;
      let childTime = foldl num_add (Num 0) durs;
          tasks2 = tasks1[task := (tasks1 ! task)
                     \<lparr>duration := num_sub (endTime (tasks1 ! task)) (startTime (tasks1 ! task))\<rparr>];
          tasks3 = tasks2[task := (tasks2 ! task)
                     \<lparr>selfTime := num_sub (duration (tasks2 ! task)) childTime\<rparr>]
      in Some (duration (tasks3 ! task), tasks3)
    }"

declare computeRecursiveSelfTime.simps [code]

text \<open>
  \<^verbatim>\<open>a || b\<close> on values that are a string or \<^verbatim>\<open>undefined\<close>: the empty string is as false as
  \<^verbatim>\<open>undefined\<close>. On values that are an object or \<^verbatim>\<open>undefined\<close>, every object is true.
\<close>

fun truthy :: "string option \<Rightarrow> bool" where
  "truthy None = False"
| "truthy (Some s) = (s \<noteq> [])"

definition str_or :: "string option \<Rightarrow> string option \<Rightarrow> string option" where
  "str_or a b = (if truthy a then a else b)"

definition obj_or :: "'a option \<Rightarrow> 'a option \<Rightarrow> 'a option" where
  "obj_or a b = (case a of Some x \<Rightarrow> Some x | None \<Rightarrow> b)"

text \<open>The first three lines of \<^verbatim>\<open>_computeRecursiveAttributableURL\<close>: the task's own URL.\<close>

definition taskURL :: "TraceEvent \<Rightarrow> string option" where
  "taskURL ev =
    (let argsData = (case args_data ev of None \<Rightarrow> \<lparr>url = None, stackTrace = None\<rparr> | Some d \<Rightarrow> d);
         stackFrames = (case stackTrace argsData of None \<Rightarrow> [\<lparr>frame_url = None\<rparr>] | Some fs \<Rightarrow> fs)
     in str_or (url argsData) (case stackFrames of [] \<Rightarrow> None | f # _ \<Rightarrow> frame_url f))"

partial_function (option) computeRecursiveAttributableURL ::
    "nat \<Rightarrow> string option \<Rightarrow> TaskNode list \<Rightarrow> TaskNode list option" where
  "computeRecursiveAttributableURL task parentURL tasks =
    (let tasks1 = tasks[task := (tasks ! task)
                    \<lparr>attributableURL := str_or parentURL (taskURL (event (tasks ! task)))\<rparr>]
     in forEachChild
          (\<lambda>child s. computeRecursiveAttributableURL child (attributableURL (s ! task)) s)
          (children (tasks1 ! task)) tasks1)"

declare computeRecursiveAttributableURL.simps [code]

partial_function (option) computeRecursiveTaskGroup ::
    "nat \<Rightarrow> property option \<Rightarrow> TaskNode list \<Rightarrow> TaskNode list option" where
  "computeRecursiveTaskGroup task parentGroup tasks =
    (let grp = getProperty taskNameToGroup (name (event (tasks ! task)));
         tasks1 = tasks[task := (tasks ! task)
                    \<lparr>group := obj_or grp (obj_or parentGroup (getProperty taskGroups ''other''))\<rparr>]
     in forEachChild
          (\<lambda>child s. computeRecursiveTaskGroup child (group (s ! task)) s)
          (children (tasks1 ! task)) tasks1)"

declare computeRecursiveTaskGroup.simps [code]

section \<open>getMainThreadTasks\<close>

text \<open>
  The first loop of \<^verbatim>\<open>getMainThreadTasks\<close>, over the indices of \<^verbatim>\<open>tasks\<close>: the three
  passes start at every task that has no parent.
\<close>

fun computeLoop :: "nat list \<Rightarrow> TaskNode list \<Rightarrow> TaskNode list option" where
  "computeLoop [] tasks = Some tasks"
| "computeLoop (i # is) tasks =
    (if parent (tasks ! i) \<noteq> None then computeLoop is tasks
     else do {
       (d, tasks1) \<leftarrow> computeRecursiveSelfTime i tasks;
       tasks2 \<leftarrow> computeRecursiveAttributableURL i None tasks1;
       tasks3 \<leftarrow> computeRecursiveTaskGroup i None tasks2;
       computeLoop is tasks3
     })"

text \<open>
  The second loop: every task of the array is rescaled, and the loop throws at the first
  task whose rescaled self time is not finite.
\<close>

definition rescale :: "number \<Rightarrow> TaskNode \<Rightarrow> TaskNode" where
  "rescale firstTs task =
    task\<lparr>startTime := num_div1000 (num_sub (startTime task) firstTs),
         endTime := num_div1000 (num_sub (endTime task) firstTs),
         duration := num_div1000 (duration task),
         selfTime := num_div1000 (selfTime task)\<rparr>"

fun normalizeLoop :: "number \<Rightarrow> TaskNode list \<Rightarrow> error + TaskNode list" where
  "normalizeLoop firstTs [] = Inr []"
| "normalizeLoop firstTs (task # rest) =
    (if \<not> isFinite (selfTime (rescale firstTs task)) then Inl InvalidTimingError
     else (case normalizeLoop firstTs rest of
             Inl e \<Rightarrow> Inl e
           | Inr rest' \<Rightarrow> Inr (rescale firstTs task # rest')))"

definition firstTs_of :: "TaskNode list \<Rightarrow> number" where
  "firstTs_of tasks = (case tasks of [] \<Rightarrow> Num 0 | task # _ \<Rightarrow> startTime task)"

text \<open>The tasks as they are after the first loop, before any time is rescaled.\<close>

definition computedTasks :: "TraceEvent list \<Rightarrow> (error + TaskNode list) option" where
  "computedTasks traceEvents =
    do {
      r \<leftarrow> createTasksFromEvents traceEvents;
      (case r of
         Inl e \<Rightarrow> Some (Inl e)
       | Inr tasks \<Rightarrow> map_option Inr (computeLoop [0..<length tasks] tasks))
    }"

definition getMainThreadTasks :: "TraceEvent list \<Rightarrow> (error + TaskNode list) option" where
  "getMainThreadTasks traceEvents =
    do {
      r \<leftarrow> computedTasks traceEvents;
      (case r of
         Inl e \<Rightarrow> Some (Inl e)
       | Inr tasks \<Rightarrow> Some (normalizeLoop (firstTs_of tasks) tasks))
    }"

section \<open>Notions for the properties\<close>

text \<open>
  What follows is not part of the program: the invariants of the task list, what the
  passes compute, the events the loop works on, and the traces of the scenarios.
\<close>

subsection \<open>The registry\<close>

text \<open>A group with its key written into its \<^verbatim>\<open>id\<close>, and the entries it adds to the reverse lookup.\<close>

definition withId :: "string \<times> TaskGroup \<Rightarrow> TaskGroup" where
  "withId entry = (snd entry)\<lparr>id_field := fst entry\<rparr>"

definition nameEntries :: "string \<times> TaskGroup \<Rightarrow> (string \<times> TaskGroup) list" where
  "nameEntries entry = map (\<lambda>n. (n, withId entry)) (traceEventNames (snd entry))"

subsection \<open>The shape of the task list\<close>

text \<open>
  The task list is a forest: the parent of a task has a smaller index and lists the task
  among its children, and every child of a task has a greater index, lies in the list and
  has the task as its parent.
\<close>

definition forest_ok :: "TaskNode list \<Rightarrow> bool" where
  "forest_ok s \<longleftrightarrow>
     (\<forall>i<length s.
        (\<forall>p. parent (s ! i) = Some p \<longrightarrow> p < i \<and> i \<in> set (children (s ! p))) \<and>
        (\<forall>c\<in>set (children (s ! i)). i < c \<and> c < length s \<and> parent (s ! c) = Some i))"

text \<open>The state of the loop: the list is a forest and the current task, if any, lies in it.\<close>

definition cursor_ok :: "LoopState \<Rightarrow> bool" where
  "cursor_ok st \<longleftrightarrow>
     forest_ok (tasks_of st) \<and> (\<forall>c. currentTask_of st = Some c \<longrightarrow> c < length (tasks_of st))"

text \<open>
  A task without the four fields that the passes fill in; the skeleton of a task list is
  what the passes leave unchanged.
\<close>

definition bare :: "TaskNode \<Rightarrow> TaskNode" where
  "bare t = t\<lparr>group := None, attributableURL := None, duration := NaN, selfTime := NaN\<rparr>"

definition skeleton :: "TaskNode list \<Rightarrow> TaskNode list" where
  "skeleton s = map bare s"

text \<open>The tasks that a pass started at task \<open>i\<close> visits: \<open>i\<close> and what lies below it.\<close>

inductive_set desc :: "TaskNode list \<Rightarrow> nat \<Rightarrow> nat set" for k :: "TaskNode list" and i :: nat where
  desc_self: "i \<in> desc k i"
| desc_child: "j \<in> desc k i \<Longrightarrow> c \<in> set (children (k ! j)) \<Longrightarrow> c \<in> desc k i"

text \<open>The task list after the tasks with an index in \<open>A\<close> have been updated by \<open>u\<close>.\<close>

definition applyOn :: "nat set \<Rightarrow> (nat \<Rightarrow> TaskNode \<Rightarrow> TaskNode) \<Rightarrow> TaskNode list \<Rightarrow> TaskNode list" where
  "applyOn A u s = map (\<lambda>j. if j \<in> A then u j (s ! j) else s ! j) [0..<length s]"

subsection \<open>What the passes compute\<close>

text \<open>
  The value that a pass from the roots downwards leaves in task \<open>j\<close>, when \<open>own\<close> makes
  the value of a task from the value of its parent (nothing for a root) and its event.
\<close>

function inherit :: "('a option \<Rightarrow> TraceEvent \<Rightarrow> 'a option) \<Rightarrow> TaskNode list \<Rightarrow> nat \<Rightarrow> 'a option" where
  "inherit own k j =
     own (case parent (k ! j) of
            None \<Rightarrow> None
          | Some p \<Rightarrow> if p < j then inherit own k p else None)
         (event (k ! j))"
  by pat_completeness auto
termination
  by (relation "measure (\<lambda>(own, k, j). j)") auto

declare inherit.simps [simp del]

text \<open>The value that such a pass hands to task \<open>i\<close>.\<close>

definition fromParent :: "('a option \<Rightarrow> TraceEvent \<Rightarrow> 'a option) \<Rightarrow> TaskNode list \<Rightarrow> nat \<Rightarrow> 'a option" where
  "fromParent own k i = (case parent (k ! i) of None \<Rightarrow> None | Some p \<Rightarrow> inherit own k p)"

text \<open>The two assignments \<^verbatim>\<open>task.attributableURL = ...\<close> and \<^verbatim>\<open>task.group = ...\<close>.\<close>

definition ownURL :: "string option \<Rightarrow> TraceEvent \<Rightarrow> string option" where
  "ownURL parentURL ev = str_or parentURL (taskURL ev)"

definition ownGroup :: "property option \<Rightarrow> TraceEvent \<Rightarrow> property option" where
  "ownGroup parentGroup ev =
     obj_or (getProperty taskNameToGroup (name ev))
       (obj_or parentGroup (getProperty taskGroups ''other''))"

text \<open>The duration and the self time, from the start and end times of the skeleton.\<close>

definition durationOf :: "TaskNode list \<Rightarrow> nat \<Rightarrow> number" where
  "durationOf k j = num_sub (endTime (k ! j)) (startTime (k ! j))"

definition selfTimeOf :: "TaskNode list \<Rightarrow> nat \<Rightarrow> number" where
  "selfTimeOf k j =
     num_sub (durationOf k j) (foldl num_add (Num 0) (map (durationOf k) (children (k ! j))))"

text \<open>A task after each of the three passes, and after all of them.\<close>

definition setTimes :: "TaskNode list \<Rightarrow> nat \<Rightarrow> TaskNode \<Rightarrow> TaskNode" where
  "setTimes k j t = t\<lparr>duration := durationOf k j, selfTime := selfTimeOf k j\<rparr>"

definition setURL :: "TaskNode list \<Rightarrow> nat \<Rightarrow> TaskNode \<Rightarrow> TaskNode" where
  "setURL k j t = t\<lparr>attributableURL := inherit ownURL k j\<rparr>"

definition setGroup :: "TaskNode list \<Rightarrow> nat \<Rightarrow> TaskNode \<Rightarrow> TaskNode" where
  "setGroup k j t = t\<lparr>group := inherit ownGroup k j\<rparr>"

definition computed :: "TaskNode list \<Rightarrow> nat \<Rightarrow> TaskNode \<Rightarrow> TaskNode" where
  "computed k j t = setGroup k j (setURL k j (setTimes k j t))"

text \<open>The tasks without a parent among the indices \<open>is\<close>.\<close>

definition rootsIn :: "TaskNode list \<Rightarrow> nat list \<Rightarrow> nat set" where
  "rootsIn k is = {r \<in> set is. parent (k ! r) = None}"

text \<open>A task list on which the three passes change nothing any more.\<close>

definition passes_done :: "TaskNode list \<Rightarrow> bool" where
  "passes_done pre \<longleftrightarrow>
     forest_ok pre \<and> (\<forall>j<length pre. computed (skeleton pre) j (pre ! j) = pre ! j)"

subsection \<open>The reconstruction\<close>

text \<open>The open-task stack: the current task and the tasks above it.\<close>

inductive_set chain :: "TaskNode list \<Rightarrow> nat option \<Rightarrow> nat set"
  for s :: "TaskNode list" and cur :: "nat option" where
  chain_here: "cur = Some c \<Longrightarrow> c \<in> chain s cur"
| chain_up: "j \<in> chain s cur \<Longrightarrow> parent (s ! j) = Some p \<Longrightarrow> p \<in> chain s cur"

text \<open>The two \<^verbatim>\<open>continue\<close> tests of the loop, as a predicate: the events the loop works on.\<close>

definition mainThreadEvent :: "TraceEvent \<Rightarrow> TraceEvent \<Rightarrow> bool" where
  "mainThreadEvent startedInPageEvt ev \<longleftrightarrow>
     pid ev = pid startedInPageEvt \<and> tid ev = tid startedInPageEvt \<and>
     (ph ev = ''X'' \<or> ph ev = ''B'' \<or> ph ev = ''E'')"

text \<open>Every task opened by a Begin event on the way from the current task up is still open.\<close>

definition begins_open :: "TaskNode list \<Rightarrow> nat option \<Rightarrow> bool" where
  "begins_open s cur \<longleftrightarrow> (\<forall>j\<in>chain s cur. ph (event (s ! j)) = ''B'' \<longrightarrow> endTime (s ! j) = NaN)"

text \<open>
  The number of tasks whose end time is still \<^verbatim>\<open>NaN\<close>, and the number of events of a phase
  among those the loop works on.
\<close>

definition count_open :: "TaskNode list \<Rightarrow> nat" where
  "count_open s = length (filter (\<lambda>e. e = NaN) (map endTime s))"

definition countPh :: "TraceEvent \<Rightarrow> string \<Rightarrow> TraceEvent list \<Rightarrow> nat" where
  "countPh startedInPageEvt p evs =
     length (filter (\<lambda>ev. mainThreadEvent startedInPageEvt ev \<and> ph ev = p) evs)"

text \<open>Start times are the timestamps of the events, none later than \<open>T\<close>.\<close>

definition starts_ok :: "rat \<Rightarrow> TaskNode list \<Rightarrow> bool" where
  "starts_ok T s \<longleftrightarrow>
     (\<forall>j<length s. startTime (s ! j) = Num (ts (event (s ! j))) \<and> ts (event (s ! j)) \<le> T)"

text \<open>A task does not start before its parent.\<close>

definition parents_earlier :: "TaskNode list \<Rightarrow> bool" where
  "parents_earlier s \<longleftrightarrow>
     (\<forall>j<length s. \<forall>p. parent (s ! j) = Some p \<longrightarrow> ts (event (s ! p)) \<le> ts (event (s ! j)))"

text \<open>A task that is not on the way from the current task up has ended, by \<open>T\<close>.\<close>

definition left_ended :: "rat \<Rightarrow> TaskNode list \<Rightarrow> nat option \<Rightarrow> bool" where
  "left_ended T s cur \<longleftrightarrow>
     (\<forall>j<length s. j \<notin> chain s cur \<longrightarrow> (\<exists>e. endTime (s ! j) = Num e \<and> e \<le> T))"

text \<open>A task opened by a Begin event and closed ends no earlier than its children.\<close>

definition begin_contains :: "TaskNode list \<Rightarrow> bool" where
  "begin_contains s \<longleftrightarrow>
     (\<forall>j<length s. \<forall>p. parent (s ! j) = Some p \<longrightarrow> ph (event (s ! p)) = ''B'' \<longrightarrow>
        endTime (s ! p) = NaN \<or>
        (\<exists>e ep. endTime (s ! j) = Num e \<and> endTime (s ! p) = Num ep \<and> e \<le> ep))"

text \<open>The invariant of the loop after an event with timestamp \<open>T\<close>.\<close>

definition timing_ok :: "rat \<Rightarrow> LoopState \<Rightarrow> bool" where
  "timing_ok T st \<longleftrightarrow>
     starts_ok T (tasks_of st) \<and> parents_earlier (tasks_of st) \<and>
     left_ended T (tasks_of st) (currentTask_of st) \<and> begin_contains (tasks_of st) \<and>
     begins_open (tasks_of st) (currentTask_of st)"

subsection \<open>Scenarios\<close>

text \<open>
  An event as the repository's test builds it, with \<^verbatim>\<open>args = {data: {}}\<close> and neither
  \<^verbatim>\<open>pid\<close> nor \<^verbatim>\<open>tid\<close>, and a task whose group and URL are \<^verbatim>\<open>undefined\<close>.
\<close>

definition mkEvent :: "string \<Rightarrow> string \<Rightarrow> rat \<Rightarrow> rat option \<Rightarrow> TraceEvent" where
  "mkEvent p n t d = \<lparr>ph = p, name = n, ts = t, dur = d, pid = None, tid = None,
      args_data = Some \<lparr>url = None, stackTrace = None\<rparr>\<rparr>"

definition mkTask ::
    "TraceEvent \<Rightarrow> number \<Rightarrow> number \<Rightarrow> nat option \<Rightarrow> nat list \<Rightarrow> number \<Rightarrow> number \<Rightarrow> TaskNode" where
  "mkTask ev s e p cs d st =
    \<lparr>event = ev, startTime = s, endTime = e, parent = p, children = cs, group = None,
     attributableURL = None, duration = d, selfTime = st\<rparr>"

text \<open>
  The events of the repository's test \<^verbatim>\<open>should compute parent/child correctly\<close>, at any
  base time: times are in microseconds, and every event has \<^verbatim>\<open>args = {data: {}}\<close> and
  neither \<^verbatim>\<open>pid\<close> nor \<^verbatim>\<open>tid\<close>.
\<close>

definition scenarioA :: "rat \<Rightarrow> TraceEvent list" where
  "scenarioA baseTs =
    [mkEvent ''I'' ''TracingStartedInPage'' baseTs None,
     mkEvent ''X'' ''TaskA'' baseTs (Some 100000),
     mkEvent ''B'' ''TaskB'' (baseTs + 5000) None,
     mkEvent ''X'' ''TaskC'' (baseTs + 10000) (Some 30000),
     mkEvent ''E'' ''TaskB'' (baseTs + 55000) None]"

text \<open>The tasks of Scenario A before and after the times are rescaled.\<close>

definition scenarioA_pre :: "rat \<Rightarrow> TaskNode list" where
  "scenarioA_pre b =
    [mkTask (mkEvent ''X'' ''TaskA'' b (Some 100000))
       (Num b) (Num (b + 100000)) None [1] (Num 100000) (Num 50000),
     mkTask (mkEvent ''B'' ''TaskB'' (b + 5000) None)
       (Num (b + 5000)) (Num (b + 55000)) (Some 0) [2] (Num 50000) (Num 20000),
     mkTask (mkEvent ''X'' ''TaskC'' (b + 10000) (Some 30000))
       (Num (b + 10000)) (Num (b + 40000)) (Some 1) [] (Num 30000) (Num 30000)]"

definition scenarioA_tasks :: "rat \<Rightarrow> TaskNode list" where
  "scenarioA_tasks b =
    [mkTask (mkEvent ''X'' ''TaskA'' b (Some 100000))
       (Num 0) (Num 100) None [1] (Num 100) (Num 50),
     mkTask (mkEvent ''B'' ''TaskB'' (b + 5000) None)
       (Num 5) (Num 55) (Some 0) [2] (Num 50) (Num 20),
     mkTask (mkEvent ''X'' ''TaskC'' (b + 10000) (Some 30000))
       (Num 10) (Num 40) (Some 1) [] (Num 30) (Num 30)]"

text \<open>Two groups of the registry, with their keys as \<^verbatim>\<open>id\<close>.\<close>

definition ScriptEvaluationGroup :: TaskGroup where
  "ScriptEvaluationGroup = \<lparr>id_field = ''ScriptEvaluation'', label = ''Script Evaluation'',
     traceEventNames = [''EventDispatch'', ''EvaluateScript'', ''EvaluateModule'',
       ''FunctionCall'', ''TimerFire'', ''FireIdleCallback'', ''FireAnimationFrame'',
       ''RunMicrotasks'', ''V8.Execute'']\<rparr>"

definition StyleLayoutGroup :: TaskGroup where
  "StyleLayoutGroup = \<lparr>id_field = ''StyleLayout'', label = ''Style & Layout'',
     traceEventNames = [''ScheduleStyleRecalculation'', ''RecalculateStyles'',
       ''UpdateLayoutTree'', ''InvalidateLayout'', ''Layout'', ''UpdateLayer'',
       ''UpdateLayerTree'']\<rparr>"

text \<open>
  Scenario C: a script evaluation with two children, one with a name that no group lists
  and one that is a layout.
\<close>

definition scenarioC :: "TraceEvent list" where
  "scenarioC =
    [mkEvent ''I'' ''TracingStartedInPage'' 0 None,
     mkEvent ''X'' ''EvaluateScript'' 0 (Some 100000),
     mkEvent ''X'' ''TaskB'' 10000 (Some 10000),
     mkEvent ''X'' ''Layout'' 30000 (Some 10000)]"

definition scenarioC_tasks :: "TaskNode list" where
  "scenarioC_tasks =
    [(mkTask (mkEvent ''X'' ''EvaluateScript'' 0 (Some 100000))
        (Num 0) (Num 100) None [1, 2] (Num 100) (Num 80))\<lparr>group := Some (Group ScriptEvaluationGroup)\<rparr>,
     (mkTask (mkEvent ''X'' ''TaskB'' 10000 (Some 10000))
        (Num 10) (Num 20) (Some 0) [] (Num 10) (Num 10))\<lparr>group := Some (Group ScriptEvaluationGroup)\<rparr>,
     (mkTask (mkEvent ''X'' ''Layout'' 30000 (Some 10000))
        (Num 30) (Num 40) (Some 0) [] (Num 10) (Num 10))\<lparr>group := Some (Group StyleLayoutGroup)\<rparr>]"

text \<open>
  A script evaluation with a child whose event carries the name of a property that every
  object inherits.
\<close>

definition inheritedName :: "TraceEvent list" where
  "inheritedName =
    [mkEvent ''I'' ''TracingStartedInPage'' 0 None,
     mkEvent ''X'' ''EvaluateScript'' 0 (Some 100000),
     mkEvent ''X'' ''constructor'' 10000 (Some 10000)]"

definition inheritedName_tasks :: "TaskNode list" where
  "inheritedName_tasks =
    [(mkTask (mkEvent ''X'' ''EvaluateScript'' 0 (Some 100000))
        (Num 0) (Num 100) None [1] (Num 100) (Num 90))\<lparr>group := Some (Group ScriptEvaluationGroup)\<rparr>,
     (mkTask (mkEvent ''X'' ''constructor'' 10000 (Some 10000))
        (Num 10) (Num 20) (Some 0) [] (Num 10) (Num 10))\<lparr>group := Some (Inherited ''constructor'')\<rparr>]"

text \<open>
  Scenario D: a root whose payload names \<^verbatim>\<open>a.js\<close>, and a child whose call stack starts in
  \<^verbatim>\<open>b.js\<close>.
\<close>

definition scenarioD :: "TraceEvent list" where
  "scenarioD =
    [mkEvent ''I'' ''TracingStartedInPage'' 0 None,
     (mkEvent ''X'' ''TaskA'' 0 (Some 100000))
        \<lparr>args_data := Some \<lparr>url = Some ''https://example.com/a.js'', stackTrace = None\<rparr>\<rparr>,
     (mkEvent ''X'' ''TaskB'' 10000 (Some 10000))
        \<lparr>args_data := Some \<lparr>url = None,
           stackTrace = Some [\<lparr>frame_url = Some ''https://example.com/b.js''\<rparr>]\<rparr>\<rparr>]"

definition scenarioD_tasks :: "TaskNode list" where
  "scenarioD_tasks =
    [(mkTask ((mkEvent ''X'' ''TaskA'' 0 (Some 100000))
        \<lparr>args_data := Some \<lparr>url = Some ''https://example.com/a.js'', stackTrace = None\<rparr>\<rparr>)
        (Num 0) (Num 100) None [1] (Num 100) (Num 90))
        \<lparr>attributableURL := Some ''https://example.com/a.js''\<rparr>,
     (mkTask ((mkEvent ''X'' ''TaskB'' 10000 (Some 10000))
        \<lparr>args_data := Some \<lparr>url = None,
           stackTrace = Some [\<lparr>frame_url = Some ''https://example.com/b.js''\<rparr>]\<rparr>\<rparr>)
        (Num 10) (Num 20) (Some 0) [] (Num 10) (Num 10))
        \<lparr>attributableURL := Some ''https://example.com/a.js''\<rparr>]"

text \<open>A Begin event without its End event.\<close>

definition unclosedBegin :: "TraceEvent list" where
  "unclosedBegin =
    [mkEvent ''I'' ''TracingStartedInPage'' 0 None,
     mkEvent ''B'' ''TaskB'' 0 None]"

text \<open>A Complete event that outlasts the task it is nested in, and two events out of order.\<close>

definition overrun :: "TraceEvent list" where
  "overrun =
    [mkEvent ''I'' ''TracingStartedInPage'' 0 None,
     mkEvent ''X'' ''TaskA'' 0 (Some 100000),
     mkEvent ''X'' ''TaskB'' 10000 (Some 200000)]"

definition overrun_tasks :: "TaskNode list" where
  "overrun_tasks =
    [mkTask (mkEvent ''X'' ''TaskA'' 0 (Some 100000))
       (Num 0) (Num 100) None [1] (Num 100) (Num (- 100)),
     mkTask (mkEvent ''X'' ''TaskB'' 10000 (Some 200000))
       (Num 10) (Num 210) (Some 0) [] (Num 200) (Num 200)]"

definition unordered :: "TraceEvent list" where
  "unordered =
    [mkEvent ''I'' ''TracingStartedInPage'' 0 None,
     mkEvent ''X'' ''TaskA'' 10000 (Some 100000),
     mkEvent ''X'' ''TaskB'' 5000 (Some 1000)]"

definition unordered_tasks :: "TaskNode list" where
  "unordered_tasks =
    [mkTask (mkEvent ''X'' ''TaskA'' 10000 (Some 100000))
       (Num 0) (Num 100) None [1] (Num 100) (Num 99),
     mkTask (mkEvent ''X'' ''TaskB'' 5000 (Some 1000))
       (Num (- 5)) (Num (- 4)) (Some 0) [] (Num 1) (Num 1)]"

text \<open>
  The two candidates for a task's own URL: the URL of the event's payload, and the URL of
  the first frame of its call stack.
\<close>

definition payloadURL :: "TraceEvent \<Rightarrow> string option" where
  "payloadURL ev = (case args_data ev of None \<Rightarrow> None | Some d \<Rightarrow> url d)"

definition firstFrameURL :: "TraceEvent \<Rightarrow> string option" where
  "firstFrameURL ev =
     (case args_data ev of
        None \<Rightarrow> None
      | Some d \<Rightarrow> (case stackTrace d of
                     None \<Rightarrow> None
                   | Some [] \<Rightarrow> None
                   | Some (f # fs) \<Rightarrow> frame_url f))"

text \<open>The group \<open>Other\<close> of the registry, and the state in which the loop starts.\<close>

definition OtherGroup :: TaskGroup where
  "OtherGroup = \<lparr>id_field = ''Other'', label = ''Other'',
     traceEventNames = [''MessageLoop::RunTask'',
       ''TaskQueueManager::ProcessTaskFromWorkQueue'', ''ThreadControllerImpl::DoWork'']\<rparr>"

definition initialState :: LoopState where
  "initialState = \<lparr>tasks_of = [], currentTask_of = None\<rparr>"

text \<open>Scenario B, and an End event that meets a task opened by a Complete or a Begin event.\<close>

definition scenarioB :: "TraceEvent list" where
  "scenarioB = [mkEvent ''I'' ''TracingStartedInPage'' 0 None, mkEvent ''E'' ''TaskB'' 5000 None]"

definition endOfComplete :: "TraceEvent list" where
  "endOfComplete =
     [mkEvent ''I'' ''TracingStartedInPage'' 0 None,
      mkEvent ''X'' ''TaskA'' 0 (Some 100000),
      mkEvent ''E'' ''TaskA'' 5000 None]"

definition endOfBegin :: "TraceEvent list" where
  "endOfBegin =
     [mkEvent ''I'' ''TracingStartedInPage'' 0 None,
      mkEvent ''B'' ''TaskB'' 0 None,
      mkEvent ''E'' ''TaskB'' 5000 None]"

section \<open>The registry, once built\<close>

lemma foldl_upd_apply:
  "foldl (\<lambda>m k. m(k \<mapsto> g)) m ks n = (if n \<in> set ks then Some g else m n)"
  by (induction ks arbitrary: m) auto

lemma groups_foldl_addGroup:
  "groups (foldl addGroup r xs) = groups r @ map (\<lambda>e. (fst e, withId e)) xs"
  by (induction xs arbitrary: r) (simp_all add: addGroup_def Let_def withId_def)

lemma nameToGroup_foldl_addGroup:
  "nameToGroup (foldl addGroup r xs) n =
     (case map_of (concat (map nameEntries (rev xs))) n of
        Some g \<Rightarrow> Some g
      | None \<Rightarrow> nameToGroup r n)"
proof (induction xs arbitrary: r)
  case Nil
  then show ?case by simp
next
  case (Cons x xs)
  have step: "nameToGroup (addGroup r x) n =
        (case map_of (nameEntries x) n of Some g \<Rightarrow> Some g | None \<Rightarrow> nameToGroup r n)"
    by (simp add: addGroup_def Let_def foldl_upd_apply nameEntries_def withId_def
          map_of_map_restrict restrict_map_def split: option.splits)
  show ?case
    using step by (simp add: Cons.IH map_add_def split: option.splits)
qed

lemma taskGroups_other: "getProperty taskGroups ''other'' = None"
proof -
  have "taskGroups ''other'' = None"
    unfolding taskGroups_def registry_def groups_foldl_addGroup
    by (simp add: taskGroups_literal_def)
  then show ?thesis by (simp add: getProperty_def objectPrototypeNames_def)
qed

lemma taskNameToGroup_map_of:
  "taskNameToGroup n = map_of (concat (map nameEntries (rev taskGroups_literal))) n"
  by (simp add: taskNameToGroup_def registry_def nameToGroup_foldl_addGroup split: option.splits)

section \<open>The forest invariant of the task list\<close>

lemma forest_ok_parent_less:
  "forest_ok s \<Longrightarrow> i < length s \<Longrightarrow> parent (s ! i) = Some p \<Longrightarrow> p < i"
  unfolding forest_ok_def by blast

lemma forest_ok_parent_child:
  "forest_ok s \<Longrightarrow> i < length s \<Longrightarrow> parent (s ! i) = Some p \<Longrightarrow> i \<in> set (children (s ! p))"
  unfolding forest_ok_def by blast

lemma forest_ok_child:
  "forest_ok s \<Longrightarrow> i < length s \<Longrightarrow> c \<in> set (children (s ! i)) \<Longrightarrow>
     i < c \<and> c < length s \<and> parent (s ! c) = Some i"
  unfolding forest_ok_def by blast

lemma length_createNewTaskNode [simp]:
  "length (createNewTaskNode ev par s) = Suc (length s)"
  by (simp add: createNewTaskNode_def Let_def split: option.splits)

lemma createNewTaskNode_old:
  "i < length s \<Longrightarrow>
   createNewTaskNode ev par s ! i =
     (if par = Some i then (s ! i)\<lparr>children := children (s ! i) @ [length s]\<rparr> else s ! i)"
  by (auto simp: createNewTaskNode_def Let_def nth_append nth_list_update split: option.splits)

lemma createNewTaskNode_new:
  "createNewTaskNode ev par s ! length s =
     \<lparr>event = ev, startTime = Num (ts ev),
      endTime = (if ph ev = ''X''
                 then Num (ts ev + (case dur ev of None \<Rightarrow> 0 | Some d \<Rightarrow> d)) else NaN),
      parent = par, children = [], group = getProperty taskGroups ''other'',
      attributableURL = None,
      duration = NaN, selfTime = NaN\<rparr>"
  by (simp add: createNewTaskNode_def Let_def nth_append split: option.splits)

lemma forest_ok_createNewTaskNode:
  assumes ok: "forest_ok s" and par: "\<And>c. par = Some c \<Longrightarrow> c < length s"
  shows "forest_ok (createNewTaskNode ev par s)"
  unfolding forest_ok_def
proof (intro allI impI conjI ballI)
  fix i p
  assume i: "i < length (createNewTaskNode ev par s)"
    and p: "parent (createNewTaskNode ev par s ! i) = Some p"
  show "p < i"
  proof (cases "i < length s")
    case True
    with p have "parent (s ! i) = Some p" by (simp add: createNewTaskNode_old split: if_splits)
    with ok True show ?thesis by (rule forest_ok_parent_less)
  next
    case False
    with i have "i = length s" by simp
    with p par show ?thesis by (simp add: createNewTaskNode_new)
  qed
  show "i \<in> set (children (createNewTaskNode ev par s ! p))"
  proof (cases "i < length s")
    case True
    with p have pi: "parent (s ! i) = Some p" by (simp add: createNewTaskNode_old split: if_splits)
    with ok True have "p < i" "i \<in> set (children (s ! p))"
      by (auto dest: forest_ok_parent_less forest_ok_parent_child)
    with True show ?thesis by (simp add: createNewTaskNode_old)
  next
    case False
    with i have "i = length s" by simp
    with p par show ?thesis by (simp add: createNewTaskNode_new createNewTaskNode_old)
  qed
next
  fix i c
  assume i: "i < length (createNewTaskNode ev par s)"
    and c: "c \<in> set (children (createNewTaskNode ev par s ! i))"
  have old: "i < length s" using i c by (cases "i = length s") (auto simp: createNewTaskNode_new)
  then have cases: "c \<in> set (children (s ! i)) \<or> (par = Some i \<and> c = length s)"
    using c by (auto simp: createNewTaskNode_old split: if_splits)
  show "i < c" using cases ok old by (auto dest: forest_ok_child)
  show "c < length (createNewTaskNode ev par s)" using cases ok old by (auto dest: forest_ok_child)
  show "parent (createNewTaskNode ev par s ! c) = Some i"
    using cases
  proof
    assume "c \<in> set (children (s ! i))"
    with ok old have "c < length s" "parent (s ! c) = Some i" by (auto dest: forest_ok_child)
    then show ?thesis by (simp add: createNewTaskNode_old)
  next
    assume "par = Some i \<and> c = length s"
    then show ?thesis by (simp add: createNewTaskNode_new)
  qed
qed

lemma forest_ok_update:
  assumes "forest_ok s" "parent t = parent (s ! c)" "children t = children (s ! c)"
  shows "forest_ok (s[c := t])"
  unfolding forest_ok_def
proof (intro allI impI conjI ballI)
  fix i p
  assume i: "i < length (s[c := t])" and p: "parent (s[c := t] ! i) = Some p"
  from i have i': "i < length s" by simp
  from p assms(2) i' have pi: "parent (s ! i) = Some p" by (cases "i = c") simp_all
  from forest_ok_parent_less[OF assms(1) i' pi] show "p < i" .
  from \<open>p < i\<close> i' have "p < length s" by simp
  with forest_ok_parent_child[OF assms(1) i' pi] assms(3)
  show "i \<in> set (children (s[c := t] ! p))"
    by (cases "p = c") simp_all
next
  fix i k
  assume i: "i < length (s[c := t])" and k: "k \<in> set (children (s[c := t] ! i))"
  from i have i': "i < length s" by simp
  from k assms(3) i' have ki: "k \<in> set (children (s ! i))" by (cases "i = c") simp_all
  from forest_ok_child[OF assms(1) i' ki]
  have *: "i < k" "k < length s" "parent (s ! k) = Some i" by simp_all
  show "i < k" by fact
  show "k < length (s[c := t])" using * by simp
  show "parent (s[c := t] ! k) = Some i" using * assms(2) by (cases "k = c") simp_all
qed

lemma closeOut_total:
  assumes "forest_ok s"
  shows "c < length s \<Longrightarrow> \<exists>r. closeOut s t (Some c) = Some r \<and> (\<forall>c'. r = Some c' \<longrightarrow> c' < length s)"
proof (induction c rule: less_induct)
  case (less c)
  show ?case
  proof (cases "isFinite (endTime (s ! c)) \<and> num_le (endTime (s ! c)) (Num t)")
    case False
    then show ?thesis using less.prems by (subst closeOut.simps) auto
  next
    case True
    show ?thesis
    proof (cases "parent (s ! c)")
      case None
      with True show ?thesis by (subst closeOut.simps) (simp add: closeOut.simps[of s t None])
    next
      case (Some p)
      with assms less.prems have "p < c" by (auto dest: forest_ok_parent_less)
      with less.IH[of p] less.prems obtain r where
        "closeOut s t (Some p) = Some r" "\<forall>c'. r = Some c' \<longrightarrow> c' < length s" by auto
      with True Some show ?thesis by (subst closeOut.simps) simp
    qed
  qed
qed

lemma closeOut_cursor:
  assumes "cursor_ok st"
  shows "\<exists>r. closeOut (tasks_of st) t (currentTask_of st) = Some r \<and>
             (\<forall>c'. r = Some c' \<longrightarrow> c' < length (tasks_of st))"
proof (cases "currentTask_of st")
  case None
  then show ?thesis by (simp add: closeOut.simps)
next
  case (Some c)
  with assms show ?thesis using closeOut_total[of "tasks_of st" c t] by (simp add: cursor_ok_def)
qed

lemma processEvent_cursor_ok:
  assumes "cursor_ok st"
  shows "\<exists>r. processEvent ev st = Some r \<and> (\<forall>st'. r = Inr st' \<longrightarrow> cursor_ok st')"
proof -
  from closeOut_cursor[OF assms, of "ts ev"] obtain r where
    r: "closeOut (tasks_of st) (ts ev) (currentTask_of st) = Some r"
    and bound: "\<forall>c'. r = Some c' \<longrightarrow> c' < length (tasks_of st)" by blast
  have ok: "forest_ok (tasks_of st)" using assms by (simp add: cursor_ok_def)
  show ?thesis
  proof (cases r)
    case None
    with r ok show ?thesis
      by (auto simp: processEvent_def cursor_ok_def intro!: forest_ok_createNewTaskNode)
  next
    case (Some c)
    with bound have c: "c < length (tasks_of st)" by simp
    have up: "\<And>p. parent (tasks_of st ! c) = Some p \<Longrightarrow> p < length (tasks_of st)"
      using forest_ok_parent_less[OF ok c] c by fastforce
    show ?thesis using r Some ok c up
      by (auto simp: processEvent_def cursor_ok_def intro!: forest_ok_createNewTaskNode forest_ok_update)
  qed
qed

lemma createLoop_cursor_ok:
  "cursor_ok st \<Longrightarrow>
   \<exists>r. createLoop s evs st = Some r \<and> (\<forall>st'. r = Inr st' \<longrightarrow> cursor_ok st')"
proof (induction evs arbitrary: st)
  case Nil
  then show ?case by simp
next
  case (Cons ev evs)
  from processEvent_cursor_ok[OF Cons.prems, of ev] obtain r where
    r: "processEvent ev st = Some r" "\<forall>st'. r = Inr st' \<longrightarrow> cursor_ok st'" by blast
  show ?case
  proof (cases r)
    case (Inl e)
    with r Cons show ?thesis by auto
  next
    case (Inr st')
    with r have "cursor_ok st'" by simp
    from Cons.IH[OF this] Cons.IH[OF Cons.prems] r Inr show ?thesis by auto
  qed
qed

section \<open>What the recursive passes compute\<close>

lemma bare_fields [simp]:
  "event (bare t) = event t" "startTime (bare t) = startTime t" "endTime (bare t) = endTime t"
  "parent (bare t) = parent t" "children (bare t) = children t"
  by (simp_all add: bare_def)

lemma length_skeleton [simp]: "length (skeleton s) = length s"
  by (simp add: skeleton_def)

lemma skeleton_nth [simp]: "i < length s \<Longrightarrow> skeleton s ! i = bare (s ! i)"
  by (simp add: skeleton_def)

lemma forest_ok_skeleton [simp]: "forest_ok (skeleton s) = forest_ok s"
  unfolding forest_ok_def by (simp cong: conj_cong)

lemma desc_trans: "x \<in> desc k c \<Longrightarrow> c \<in> desc k i \<Longrightarrow> x \<in> desc k i"
  by (induction rule: desc.induct) (auto intro: desc_child)

lemma desc_unfold: "desc k i = insert i (\<Union>c\<in>set (children (k ! i)). desc k c)"
proof (intro set_eqI iffI)
  fix x assume "x \<in> desc k i"
  then show "x \<in> insert i (\<Union>c\<in>set (children (k ! i)). desc k c)"
  proof (induction rule: desc.induct)
    case desc_self
    then show ?case by simp
  next
    case (desc_child j c)
    then show ?case by (auto intro: desc.intros)
  qed
next
  fix x assume "x \<in> insert i (\<Union>c\<in>set (children (k ! i)). desc k c)"
  then show "x \<in> desc k i"
    by (auto intro: desc_self desc_trans desc_child[OF desc_self])
qed

lemma desc_bound:
  assumes "forest_ok k" "i < length k"
  shows "x \<in> desc k i \<Longrightarrow> i \<le> x \<and> x < length k"
proof (induction rule: desc.induct)
  case desc_self
  then show ?case using assms by simp
next
  case (desc_child j c)
  with forest_ok_child[OF assms(1), of j c] show ?case by auto
qed

text \<open>Every task is below a task that has no parent.\<close>

lemma root_above:
  assumes "forest_ok k"
  shows "j < length k \<Longrightarrow> \<exists>r\<le>j. parent (k ! r) = None \<and> j \<in> desc k r"
proof (induction j rule: less_induct)
  case (less j)
  show ?case
  proof (cases "parent (k ! j)")
    case None
    then show ?thesis by (auto intro: desc_self)
  next
    case (Some p)
    from forest_ok_parent_less[OF assms less.prems Some] have "p < j" .
    moreover from forest_ok_parent_child[OF assms less.prems Some] have "j \<in> set (children (k ! p))" .
    moreover from less.IH[OF \<open>p < j\<close>] \<open>p < j\<close> less.prems
    obtain r where "r \<le> p" "parent (k ! r) = None" "p \<in> desc k r" by auto
    ultimately show ?thesis by (auto intro: desc_child intro!: exI[of _ r])
  qed
qed

lemma length_applyOn [simp]: "length (applyOn A u s) = length s"
  by (simp add: applyOn_def)

lemma applyOn_nth [simp]:
  "j < length s \<Longrightarrow> applyOn A u s ! j = (if j \<in> A then u j (s ! j) else s ! j)"
  by (simp add: applyOn_def)

lemma applyOn_empty [simp]: "applyOn {} u s = s"
  by (simp add: list_eq_iff_nth_eq)

lemma applyOn_applyOn:
  assumes "\<And>j t. u j (u j t) = u j t"
  shows "applyOn A u (applyOn B u s) = applyOn (B \<union> A) u s"
  using assms by (simp add: list_eq_iff_nth_eq)

lemma update_applyOn: "s[i := u i (s ! i)] = applyOn {i} u s"
  by (simp add: list_eq_iff_nth_eq nth_list_update)

lemma skeleton_applyOn:
  assumes "\<And>j t. bare (u j t) = bare t"
  shows "skeleton (applyOn A u s) = skeleton s"
  using assms by (simp add: list_eq_iff_nth_eq)

lemma inherit_fromParent:
  "forest_ok k \<Longrightarrow> i < length k \<Longrightarrow> inherit own k i = own (fromParent own k i) (event (k ! i))"
  by (subst inherit.simps) (auto simp: fromParent_def split: option.splits dest: forest_ok_parent_less)

lemma preorder_children:
  fixes f :: "nat \<Rightarrow> 'a option \<Rightarrow> TaskNode list \<Rightarrow> TaskNode list option"
  assumes call: "\<And>c st. c \<in> set cs \<Longrightarrow> skeleton st = k \<Longrightarrow>
            f c (inherit own k i) st = Some (applyOn (desc k c) (\<lambda>j. put (inherit own k j)) st)"
    and get_put: "\<And>v t. get (put v t) = v"
    and put_put: "\<And>v w t. put v (put w t) = put v t"
    and bare_put: "\<And>v t. bare (put v t) = bare t"
    and i: "i < length k" "i \<in> B"
    and s: "skeleton s = k"
  shows "forEachChild (\<lambda>child st. f child (get (st ! i)) st) cs
            (applyOn B (\<lambda>j. put (inherit own k j)) s)
         = Some (applyOn (B \<union> (\<Union>c\<in>set cs. desc k c)) (\<lambda>j. put (inherit own k j)) s)"
  using call i(2)
proof (induction cs arbitrary: B)
  case Nil
  then show ?case by simp
next
  case (Cons c cs)
  let ?u = "\<lambda>j. put (inherit own k j)"
  let ?st = "applyOn B ?u s"
  have len: "length s = length k" using s by (metis length_skeleton)
  have sk: "skeleton ?st = k" using s bare_put by (simp add: skeleton_applyOn)
  have "get (?st ! i) = inherit own k i"
    using i(1) Cons.prems(2) len by (simp add: get_put)
  then have "f c (get (?st ! i)) ?st = Some (applyOn (desc k c) ?u ?st)"
    using Cons.prems(1)[of c ?st] sk by simp
  also have "applyOn (desc k c) ?u ?st = applyOn (B \<union> desc k c) ?u s"
    by (rule applyOn_applyOn) (simp add: put_put)
  finally have step: "f c (get (?st ! i)) ?st = Some (applyOn (B \<union> desc k c) ?u s)" .
  have "forEachChild (\<lambda>child st. f child (get (st ! i)) st) cs (applyOn (B \<union> desc k c) ?u s)
        = Some (applyOn ((B \<union> desc k c) \<union> (\<Union>c\<in>set cs. desc k c)) ?u s)"
    using Cons.prems by (intro Cons.IH) auto
  with step show ?case by (simp add: Un_assoc)
qed

lemma preorder_pass:
  fixes f :: "nat \<Rightarrow> 'a option \<Rightarrow> TaskNode list \<Rightarrow> TaskNode list option"
  assumes eq: "\<And>task pv tasks. f task pv tasks =
            (let tasks1 = tasks[task := put (own pv (event (tasks ! task))) (tasks ! task)]
             in forEachChild (\<lambda>child st. f child (get (st ! task)) st)
                  (children (tasks1 ! task)) tasks1)"
    and get_put: "\<And>v t. get (put v t) = v"
    and put_put: "\<And>v w t. put v (put w t) = put v t"
    and bare_put: "\<And>v t. bare (put v t) = bare t"
    and ok: "forest_ok k"
  shows "skeleton s = k \<Longrightarrow> i < length k \<Longrightarrow>
         f i (fromParent own k i) s = Some (applyOn (desc k i) (\<lambda>j. put (inherit own k j)) s)"
proof (induction "length k - i" arbitrary: i s rule: less_induct)
  case less
  let ?u = "\<lambda>j. put (inherit own k j)"
  have len: "length s = length k" using less.prems(1) by (metis length_skeleton)
  have i: "i < length s" using less.prems(2) len by simp
  have ev: "event (s ! i) = event (k ! i)" and ch: "children (s ! i) = children (k ! i)"
    using less.prems(1) i by (metis skeleton_nth bare_fields(1), metis skeleton_nth bare_fields(5))
  have first: "s[i := put (own (fromParent own k i) (event (s ! i))) (s ! i)] = applyOn {i} ?u s"
    using inherit_fromParent[OF ok less.prems(2), of own] ev
    by (simp add: update_applyOn[of s i ?u, symmetric])
  have ch1: "children (applyOn {i} ?u s ! i) = children (k ! i)"
  proof -
    have "bare (applyOn {i} ?u s ! i) = bare (s ! i)" using i by (simp add: bare_put)
    then have "children (applyOn {i} ?u s ! i) = children (s ! i)" by (metis bare_fields(5))
    with ch show ?thesis by simp
  qed
  have call: "f c (inherit own k i) st = Some (applyOn (desc k c) ?u st)"
    if c: "c \<in> set (children (k ! i))" and st: "skeleton st = k" for c st
  proof -
    from forest_ok_child[OF ok less.prems(2) c]
    have *: "i < c" "c < length k" "parent (k ! c) = Some i" by simp_all
    then have "fromParent own k c = inherit own k i" by (simp add: fromParent_def)
    moreover have "length k - c < length k - i" using * by simp
    ultimately show ?thesis using less.hyps[of c st] st * by simp
  qed
  have "f i (fromParent own k i) s =
        forEachChild (\<lambda>child st. f child (get (st ! i)) st) (children (k ! i)) (applyOn {i} ?u s)"
    by (subst eq) (simp add: Let_def first ch1)
  also have "\<dots> = Some (applyOn ({i} \<union> (\<Union>c\<in>set (children (k ! i)). desc k c)) ?u s)"
  proof (rule preorder_children[where f = f and own = own and put = put and get = get
        and k = k and i = i and B = "{i}" and s = s and cs = "children (k ! i)"])
    show "f c (inherit own k i) st = Some (applyOn (desc k c) ?u st)"
      if "c \<in> set (children (k ! i))" "skeleton st = k" for c st
      using that by (rule call)
  qed (simp_all add: get_put put_put bare_put less.prems)
  also have "{i} \<union> (\<Union>c\<in>set (children (k ! i)). desc k c) = desc k i"
    by (simp add: desc_unfold[of k i])
  finally show ?case .
qed

lemma url_pass:
  assumes "forest_ok k" "skeleton s = k" "i < length k"
  shows "computeRecursiveAttributableURL i (fromParent ownURL k i) s
           = Some (applyOn (desc k i) (setURL k) s)"
proof -
  have "computeRecursiveAttributableURL i (fromParent ownURL k i) s
           = Some (applyOn (desc k i) (\<lambda>j. (\<lambda>v t. t\<lparr>attributableURL := v\<rparr>) (inherit ownURL k j)) s)"
  proof (rule preorder_pass[where get = attributableURL and own = ownURL])
    show "computeRecursiveAttributableURL task pv tasks =
        (let tasks1 = tasks[task := (tasks ! task)\<lparr>attributableURL := ownURL pv (event (tasks ! task))\<rparr>]
         in forEachChild (\<lambda>child st. computeRecursiveAttributableURL child (attributableURL (st ! task)) st)
              (children (tasks1 ! task)) tasks1)" for task pv tasks
      by (subst computeRecursiveAttributableURL.simps) (simp add: ownURL_def)
  qed (simp_all add: bare_def assms)
  then show ?thesis by (simp add: setURL_def[abs_def])
qed

lemma group_pass:
  assumes "forest_ok k" "skeleton s = k" "i < length k"
  shows "computeRecursiveTaskGroup i (fromParent ownGroup k i) s
           = Some (applyOn (desc k i) (setGroup k) s)"
proof -
  have "computeRecursiveTaskGroup i (fromParent ownGroup k i) s
           = Some (applyOn (desc k i) (\<lambda>j. (\<lambda>v t. t\<lparr>group := v\<rparr>) (inherit ownGroup k j)) s)"
  proof (rule preorder_pass[where get = group and own = ownGroup])
    show "computeRecursiveTaskGroup task pv tasks =
        (let tasks1 = tasks[task := (tasks ! task)\<lparr>group := ownGroup pv (event (tasks ! task))\<rparr>]
         in forEachChild (\<lambda>child st. computeRecursiveTaskGroup child (group (st ! task)) st)
              (children (tasks1 ! task)) tasks1)" for task pv tasks
      by (subst computeRecursiveTaskGroup.simps) (simp add: ownGroup_def Let_def)
  qed (simp_all add: bare_def assms)
  then show ?thesis by (simp add: setGroup_def[abs_def])
qed

lemma setTimes_idem: "setTimes k j (setTimes k j t) = setTimes k j t"
  by (simp add: setTimes_def)

lemma bare_setTimes: "bare (setTimes k j t) = bare t"
  by (simp add: setTimes_def bare_def)

lemma selftime_children:
  assumes call: "\<And>c st. c \<in> set cs \<Longrightarrow> skeleton st = k \<Longrightarrow>
            computeRecursiveSelfTime c st = Some (durationOf k c, applyOn (desc k c) (setTimes k) st)"
    and s: "skeleton s = k"
  shows "mapChildren computeRecursiveSelfTime cs (applyOn B (setTimes k) s)
         = Some (map (durationOf k) cs, applyOn (B \<union> (\<Union>c\<in>set cs. desc k c)) (setTimes k) s)"
  using call
proof (induction cs arbitrary: B)
  case Nil
  then show ?case by simp
next
  case (Cons c cs)
  let ?st = "applyOn B (setTimes k) s"
  have sk: "skeleton ?st = k" using s by (simp add: skeleton_applyOn bare_setTimes)
  have "computeRecursiveSelfTime c ?st = Some (durationOf k c, applyOn (desc k c) (setTimes k) ?st)"
    using Cons.prems[of c ?st] sk by simp
  also have "applyOn (desc k c) (setTimes k) ?st = applyOn (B \<union> desc k c) (setTimes k) s"
    by (rule applyOn_applyOn) (rule setTimes_idem)
  finally have step: "computeRecursiveSelfTime c ?st
      = Some (durationOf k c, applyOn (B \<union> desc k c) (setTimes k) s)" .
  have "mapChildren computeRecursiveSelfTime cs (applyOn (B \<union> desc k c) (setTimes k) s)
        = Some (map (durationOf k) cs,
                applyOn ((B \<union> desc k c) \<union> (\<Union>c\<in>set cs. desc k c)) (setTimes k) s)"
    using Cons.prems by (intro Cons.IH) auto
  with step show ?case by (simp add: Un_assoc)
qed

lemma selftime_step:
  assumes "mapChildren computeRecursiveSelfTime (children (s ! i)) s = Some (durs, s1)"
    and "i < length s1"
  shows "computeRecursiveSelfTime i s =
     Some (num_sub (endTime (s1 ! i)) (startTime (s1 ! i)),
           s1[i := (s1 ! i)\<lparr>duration := num_sub (endTime (s1 ! i)) (startTime (s1 ! i)),
                selfTime := num_sub (num_sub (endTime (s1 ! i)) (startTime (s1 ! i)))
                              (foldl num_add (Num 0) durs)\<rparr>])"
  by (subst computeRecursiveSelfTime.simps) (simp add: assms Let_def)

lemma selftime_pass:
  assumes ok: "forest_ok k"
  shows "skeleton s = k \<Longrightarrow> i < length k \<Longrightarrow>
         computeRecursiveSelfTime i s = Some (durationOf k i, applyOn (desc k i) (setTimes k) s)"
proof (induction "length k - i" arbitrary: i s rule: less_induct)
  case less
  let ?below = "\<Union>c\<in>set (children (k ! i)). desc k c"
  let ?s1 = "applyOn ?below (setTimes k) s"
  have len: "length s = length k" using less.prems(1) by (metis length_skeleton)
  have i: "i < length s" using less.prems(2) len by simp
  have bare_i: "bare (s ! i) = k ! i" using less.prems(1) i by (metis skeleton_nth)
  have ch: "children (s ! i) = children (k ! i)" using bare_i by (metis bare_fields(5))
  have bare1: "bare (?s1 ! i) = k ! i" using bare_i i by (simp add: bare_setTimes)
  have times: "endTime (?s1 ! i) = endTime (k ! i)" "startTime (?s1 ! i) = startTime (k ! i)"
    using bare1 by (metis bare_fields(3), metis bare_fields(2))
  have call: "computeRecursiveSelfTime c st
        = Some (durationOf k c, applyOn (desc k c) (setTimes k) st)"
    if c: "c \<in> set (children (k ! i))" and st: "skeleton st = k" for c st
  proof -
    from forest_ok_child[OF ok less.prems(2) c] have *: "i < c" "c < length k" by simp_all
    then have "length k - c < length k - i" by simp
    then show ?thesis using less.hyps[of c st] st * by simp
  qed
  have kids: "mapChildren computeRecursiveSelfTime (children (s ! i)) s
         = Some (map (durationOf k) (children (k ! i)), ?s1)"
    using selftime_children[where B = "{}" and cs = "children (k ! i)", OF call less.prems(1)] ch
    by simp
  have last: "?s1[i := (?s1 ! i)\<lparr>duration := durationOf k i, selfTime := selfTimeOf k i\<rparr>]
      = applyOn (desc k i) (setTimes k) s"
  proof -
    have "?s1[i := setTimes k i (?s1 ! i)] = applyOn {i} (setTimes k) ?s1"
      by (rule update_applyOn)
    also have "\<dots> = applyOn (?below \<union> {i}) (setTimes k) s"
      by (rule applyOn_applyOn) (rule setTimes_idem)
    also have "?below \<union> {i} = desc k i" by (simp add: desc_unfold[of k i])
    finally have e: "?s1[i := setTimes k i (?s1 ! i)] = applyOn (desc k i) (setTimes k) s" .
    have r: "setTimes k i (?s1 ! i)
        = (?s1 ! i)\<lparr>duration := durationOf k i, selfTime := selfTimeOf k i\<rparr>"
      by (simp add: setTimes_def)
    show ?thesis using e unfolding r .
  qed
  have i1: "i < length ?s1" using i by simp
  show ?case
    unfolding selftime_step[OF kids i1] times
    unfolding durationOf_def[symmetric] selfTimeOf_def[symmetric] last ..
qed

lemma applyOn_compose:
  "applyOn A u2 (applyOn A u1 s) = applyOn A (\<lambda>j t. u2 j (u1 j t)) s"
  by (simp add: list_eq_iff_nth_eq)

lemma computed_idem: "computed k j (computed k j t) = computed k j t"
  by (simp add: computed_def setGroup_def setURL_def setTimes_def)

lemma bare_computed: "bare (computed k j t) = bare t"
  by (simp add: computed_def setGroup_def setURL_def setTimes_def bare_def)

lemma bare_setURL: "bare (setURL k j t) = bare t"
  by (simp add: setURL_def bare_def)

lemma root_passes:
  assumes ok: "forest_ok k" and sk: "skeleton st = k" and i: "i < length k"
    and root: "parent (k ! i) = None"
  shows "do {
           (d, tasks1) \<leftarrow> computeRecursiveSelfTime i st;
           tasks2 \<leftarrow> computeRecursiveAttributableURL i None tasks1;
           computeRecursiveTaskGroup i None tasks2
         } = Some (applyOn (desc k i) (computed k) st)"
proof -
  let ?st1 = "applyOn (desc k i) (setTimes k) st"
  let ?st2 = "applyOn (desc k i) (setURL k) ?st1"
  have sk1: "skeleton ?st1 = k" using sk by (simp add: skeleton_applyOn bare_setTimes)
  have sk2: "skeleton ?st2 = k" using sk1 by (simp add: skeleton_applyOn bare_setURL)
  have none: "fromParent ownURL k i = None" "fromParent ownGroup k i = None"
    using root by (simp_all add: fromParent_def)
  have 1: "computeRecursiveSelfTime i st = Some (durationOf k i, ?st1)"
    using ok sk i by (rule selftime_pass)
  have 2: "computeRecursiveAttributableURL i None ?st1 = Some ?st2"
    using url_pass[OF ok sk1 i] none by simp
  have 3: "computeRecursiveTaskGroup i None ?st2 = Some (applyOn (desc k i) (setGroup k) ?st2)"
    using group_pass[OF ok sk2 i] none by simp
  have "applyOn (desc k i) (setGroup k) ?st2 = applyOn (desc k i) (computed k) st"
    by (simp add: applyOn_compose computed_def[abs_def])
  with 1 2 3 show ?thesis by simp
qed

lemma computeLoop_char:
  assumes ok: "forest_ok k"
  shows "set is \<subseteq> {..<length k} \<Longrightarrow> skeleton st = k \<Longrightarrow>
         computeLoop is st = Some (applyOn (\<Union>r\<in>rootsIn k is. desc k r) (computed k) st)"
proof (induction "is" arbitrary: st)
  case Nil
  then show ?case by (simp add: rootsIn_def)
next
  case (Cons i "is")
  have i: "i < length k" using Cons.prems(1) by simp
  have len: "length st = length k" using Cons.prems(2) by (metis length_skeleton)
  have "bare (st ! i) = k ! i" using Cons.prems(2) i len by (metis skeleton_nth)
  then have par: "parent (st ! i) = parent (k ! i)" by (metis bare_fields(4))
  show ?case
  proof (cases "parent (k ! i)")
    case (Some p)
    then have "rootsIn k (i # is) = rootsIn k is" by (auto simp: rootsIn_def)
    with Some par Cons show ?thesis by simp
  next
    case None
    let ?st3 = "applyOn (desc k i) (computed k) st"
    have sk3: "skeleton ?st3 = k" using Cons.prems(2) by (simp add: skeleton_applyOn bare_computed)
    have roots: "rootsIn k (i # is) = insert i (rootsIn k is)" using None by (auto simp: rootsIn_def)
    have "computeLoop is ?st3
        = Some (applyOn (\<Union>r\<in>rootsIn k is. desc k r) (computed k) ?st3)"
      using Cons.prems(1) sk3 by (intro Cons.IH) simp_all
    also have "applyOn (\<Union>r\<in>rootsIn k is. desc k r) (computed k) ?st3
        = applyOn (desc k i \<union> (\<Union>r\<in>rootsIn k is. desc k r)) (computed k) st"
      by (rule applyOn_applyOn) (rule computed_idem)
    finally have rest: "computeLoop is ?st3
        = Some (applyOn (\<Union>r\<in>rootsIn k (i # is). desc k r) (computed k) st)"
      by (simp add: roots)
    have "computeLoop (i # is) st =
        do {
          tasks3 \<leftarrow> do {
            (d, tasks1) \<leftarrow> computeRecursiveSelfTime i st;
            tasks2 \<leftarrow> computeRecursiveAttributableURL i None tasks1;
            computeRecursiveTaskGroup i None tasks2
          };
          computeLoop is tasks3
        }"
      using None par by (simp add: split_def)
    also have "\<dots> = computeLoop is ?st3"
      unfolding root_passes[OF ok Cons.prems(2) i None] by simp
    finally show ?thesis using rest by simp
  qed
qed

lemma computeLoop_all:
  assumes ok: "forest_ok s"
  shows "computeLoop [0..<length s] s
           = Some (map (\<lambda>j. computed (skeleton s) j (s ! j)) [0..<length s])"
proof -
  let ?k = "skeleton s"
  let ?A = "\<Union>r\<in>rootsIn ?k [0..<length s]. desc ?k r"
  have okk: "forest_ok ?k" using ok by simp
  have "set [0..<length s] \<subseteq> {..<length ?k}" by auto
  from computeLoop_char[OF okk this, of s]
  have "computeLoop [0..<length s] s = Some (applyOn ?A (computed ?k) s)" by simp
  moreover have "j \<in> ?A" if "j < length s" for j
  proof -
    from root_above[OF okk, of j] that obtain r where
      "r \<le> j" "parent (?k ! r) = None" "j \<in> desc ?k r" by auto
    moreover from \<open>r \<le> j\<close> that have "r < length s" by simp
    ultimately have "r \<in> rootsIn ?k [0..<length s]" by (simp add: rootsIn_def)
    with \<open>j \<in> desc ?k r\<close> show ?thesis by blast
  qed
  note all = this
  have "applyOn ?A (computed ?k) s = map (\<lambda>j. computed ?k j (s ! j)) [0..<length s]"
  proof (rule nth_equalityI)
    show "length (applyOn ?A (computed ?k) s) = length (map (\<lambda>j. computed ?k j (s ! j)) [0..<length s])"
      by simp
  next
    fix j assume "j < length (applyOn ?A (computed ?k) s)"
    then have j: "j < length s" by simp
    have "applyOn ?A (computed ?k) s ! j = computed ?k j (s ! j)"
      unfolding applyOn_nth[OF j] using all[OF j] by (simp only: if_True)
    then show "applyOn ?A (computed ?k) s ! j = map (\<lambda>j. computed ?k j (s ! j)) [0..<length s] ! j"
      using j by simp
  qed
  ultimately show ?thesis by simp
qed

lemma skeleton_computed_all:
  "skeleton (map (\<lambda>j. computed k j (s ! j)) [0..<length s]) = skeleton s"
proof (rule nth_equalityI)
  show "length (skeleton (map (\<lambda>j. computed k j (s ! j)) [0..<length s])) = length (skeleton s)"
    by simp
next
  fix i assume "i < length (skeleton (map (\<lambda>j. computed k j (s ! j)) [0..<length s]))"
  then have "i < length s" by simp
  then show "skeleton (map (\<lambda>j. computed k j (s ! j)) [0..<length s]) ! i = skeleton s ! i"
    by (simp add: bare_computed)
qed

lemma createTasksFromEvents_forest_ok:
  assumes "createTasksFromEvents traceEvents = Some (Inr s)"
  shows "forest_ok s"
proof -
  have init: "cursor_ok \<lparr>tasks_of = [], currentTask_of = None\<rparr>"
    by (simp add: cursor_ok_def forest_ok_def)
  from assms obtain se st where
    "createLoop se traceEvents \<lparr>tasks_of = [], currentTask_of = None\<rparr> = Some (Inr st)"
    and s: "s = tasks_of st"
    by (auto simp: createTasksFromEvents_def split: sum.splits option.splits)
  with createLoop_cursor_ok[OF init, of se traceEvents] have "cursor_ok st" by auto
  then show ?thesis using s by (simp add: cursor_ok_def)
qed

lemma createTasksFromEvents_total: "\<exists>r. createTasksFromEvents traceEvents = Some r"
proof -
  have init: "cursor_ok \<lparr>tasks_of = [], currentTask_of = None\<rparr>"
    by (simp add: cursor_ok_def forest_ok_def)
  show ?thesis
  proof (cases "findTracingStartedEvt traceEvents")
    case (Inl e)
    then show ?thesis by (simp add: createTasksFromEvents_def)
  next
    case (Inr se)
    from createLoop_cursor_ok[OF init, of se traceEvents] obtain r where
      "createLoop se traceEvents \<lparr>tasks_of = [], currentTask_of = None\<rparr> = Some r" by blast
    with Inr show ?thesis by (cases r) (simp_all add: createTasksFromEvents_def)
  qed
qed

lemma computedTasks_cases:
  "(\<exists>e. createTasksFromEvents traceEvents = Some (Inl e) \<and> computedTasks traceEvents = Some (Inl e)) \<or>
   (\<exists>s. createTasksFromEvents traceEvents = Some (Inr s) \<and> forest_ok s \<and>
        computedTasks traceEvents
          = Some (Inr (map (\<lambda>j. computed (skeleton s) j (s ! j)) [0..<length s])))"
proof -
  from createTasksFromEvents_total obtain r where r: "createTasksFromEvents traceEvents = Some r"
    by blast
  show ?thesis
  proof (cases r)
    case (Inl e)
    with r show ?thesis by (simp add: computedTasks_def)
  next
    case (Inr s)
    with r have ok: "forest_ok s" using createTasksFromEvents_forest_ok by simp
    from r Inr ok computeLoop_all[OF ok] show ?thesis by (simp add: computedTasks_def)
  qed
qed

lemma computedTasks_passes_done:
  assumes "computedTasks traceEvents = Some (Inr pre)"
  shows "passes_done pre"
proof -
  from computedTasks_cases[of traceEvents] assms obtain s where
    ok: "forest_ok s" and pre: "pre = map (\<lambda>j. computed (skeleton s) j (s ! j)) [0..<length s]"
    by auto
  have sk: "skeleton pre = skeleton s"
    unfolding pre by (rule skeleton_computed_all)
  have "forest_ok (skeleton pre)" using ok sk by simp
  then have "forest_ok pre" by simp
  moreover have "computed (skeleton pre) j (pre ! j) = pre ! j" if "j < length pre" for j
  proof -
    from that have "pre ! j = computed (skeleton s) j (s ! j)" by (simp add: pre)
    then show ?thesis by (simp add: sk computed_idem)
  qed
  ultimately show ?thesis by (simp add: passes_done_def)
qed

lemma getMainThreadTasks_total: "\<exists>r. getMainThreadTasks traceEvents = Some r"
  using computedTasks_cases[of traceEvents]
  by (auto simp: getMainThreadTasks_def)

lemma normalizeLoop_Inr:
  "normalizeLoop t0 s = Inr res \<Longrightarrow>
     res = map (rescale t0) s \<and> (\<forall>t\<in>set s. isFinite (selfTime (rescale t0 t)))"
  by (induction s arbitrary: res) (auto split: if_splits sum.splits)

lemma normalizeLoop_fail:
  "\<exists>t\<in>set s. \<not> isFinite (selfTime (rescale t0 t)) \<Longrightarrow>
     normalizeLoop t0 s = Inl InvalidTimingError"
proof (induction s)
  case Nil
  then show ?case by simp
next
  case (Cons t s)
  show ?case
  proof (cases "isFinite (selfTime (rescale t0 t))")
    case False
    then show ?thesis by simp
  next
    case True
    with Cons show ?thesis by auto
  qed
qed

lemma getMainThreadTasks_Inr:
  assumes "getMainThreadTasks traceEvents = Some (Inr res)"
  shows "\<exists>pre. computedTasks traceEvents = Some (Inr pre) \<and> passes_done pre \<and>
           res = map (rescale (firstTs_of pre)) pre \<and>
           (\<forall>t\<in>set pre. isFinite (selfTime (rescale (firstTs_of pre) t)))"
proof -
  from assms obtain pre where pre: "computedTasks traceEvents = Some (Inr pre)"
    and norm: "normalizeLoop (firstTs_of pre) pre = Inr res"
    by (auto simp: getMainThreadTasks_def split: bind_splits sum.splits)
  from computedTasks_passes_done[OF pre] normalizeLoop_Inr[OF norm] pre show ?thesis by blast
qed

lemma rescale_fields [simp]:
  "event (rescale t0 t) = event t" "parent (rescale t0 t) = parent t"
  "children (rescale t0 t) = children t" "group (rescale t0 t) = group t"
  "attributableURL (rescale t0 t) = attributableURL t"
  "startTime (rescale t0 t) = num_div1000 (num_sub (startTime t) t0)"
  "endTime (rescale t0 t) = num_div1000 (num_sub (endTime t) t0)"
  "duration (rescale t0 t) = num_div1000 (duration t)"
  "selfTime (rescale t0 t) = num_div1000 (selfTime t)"
  by (simp_all add: rescale_def)

text \<open>What the three passes leave in a task, read off the task list itself.\<close>

lemma passes_done_fields:
  assumes "passes_done pre" "j < length pre"
  shows "duration (pre ! j) = num_sub (endTime (pre ! j)) (startTime (pre ! j))"
    and "selfTime (pre ! j) = num_sub (duration (pre ! j))
           (foldl num_add (Num 0) (map (\<lambda>c. duration (pre ! c)) (children (pre ! j))))"
    and "attributableURL (pre ! j) =
           str_or (case parent (pre ! j) of None \<Rightarrow> None | Some p \<Rightarrow> attributableURL (pre ! p))
                  (taskURL (event (pre ! j)))"
    and "group (pre ! j) =
           obj_or (getProperty taskNameToGroup (name (event (pre ! j))))
             (obj_or (case parent (pre ! j) of None \<Rightarrow> None | Some p \<Rightarrow> group (pre ! p))
                (getProperty taskGroups ''other''))"
proof -
  let ?k = "skeleton pre"
  have ok: "forest_ok pre" and okk: "forest_ok ?k" using assms(1) by (simp_all add: passes_done_def)
  have fixed: "computed ?k i (pre ! i) = pre ! i" if "i < length pre" for i
    using assms(1) that by (simp add: passes_done_def)
  have dur: "duration (pre ! i) = durationOf ?k i" if "i < length pre" for i
    using arg_cong[OF fixed[OF that], of duration]
    by (simp add: computed_def setGroup_def setURL_def setTimes_def)
  have self: "selfTime (pre ! j) = selfTimeOf ?k j"
    using arg_cong[OF fixed[OF assms(2)], of selfTime]
    by (simp add: computed_def setGroup_def setURL_def setTimes_def)
  have url: "attributableURL (pre ! i) = inherit ownURL ?k i" if "i < length pre" for i
    using arg_cong[OF fixed[OF that], of attributableURL]
    by (simp add: computed_def setGroup_def setURL_def setTimes_def)
  have grp: "group (pre ! i) = inherit ownGroup ?k i" if "i < length pre" for i
    using arg_cong[OF fixed[OF that], of group]
    by (simp add: computed_def setGroup_def setURL_def setTimes_def)
  have kj: "parent (?k ! j) = parent (pre ! j)" "event (?k ! j) = event (pre ! j)"
    "children (?k ! j) = children (pre ! j)" "startTime (?k ! j) = startTime (pre ! j)"
    "endTime (?k ! j) = endTime (pre ! j)"
    using assms(2) by simp_all
  show "duration (pre ! j) = num_sub (endTime (pre ! j)) (startTime (pre ! j))"
    using dur[OF assms(2)] by (simp add: durationOf_def kj)
  have kids: "map (durationOf ?k) (children (pre ! j)) = map (\<lambda>c. duration (pre ! c)) (children (pre ! j))"
  proof (rule map_cong[OF refl])
    fix c assume "c \<in> set (children (pre ! j))"
    with forest_ok_child[OF ok assms(2)] have "c < length pre" by simp
    then show "durationOf ?k c = duration (pre ! c)" by (simp add: dur)
  qed
  show "selfTime (pre ! j) = num_sub (duration (pre ! j))
           (foldl num_add (Num 0) (map (\<lambda>c. duration (pre ! c)) (children (pre ! j))))"
    using self dur[OF assms(2)] by (simp add: selfTimeOf_def kj kids)
  have up: "p < length pre" if "parent (pre ! j) = Some p" for p
    using forest_ok_parent_less[OF ok assms(2) that] assms(2) by simp
  have j': "j < length ?k" using assms(2) by simp
  show "attributableURL (pre ! j) =
           str_or (case parent (pre ! j) of None \<Rightarrow> None | Some p \<Rightarrow> attributableURL (pre ! p))
                  (taskURL (event (pre ! j)))"
    unfolding url[OF assms(2)] inherit_fromParent[OF okk j']
    by (auto simp: fromParent_def ownURL_def kj url up split: option.splits)
  show "group (pre ! j) =
           obj_or (getProperty taskNameToGroup (name (event (pre ! j))))
             (obj_or (case parent (pre ! j) of None \<Rightarrow> None | Some p \<Rightarrow> group (pre ! p))
                (getProperty taskGroups ''other''))"
    unfolding grp[OF assms(2)] inherit_fromParent[OF okk j']
    by (auto simp: fromParent_def ownGroup_def kj grp up split: option.splits)
qed

section \<open>The way from the current task up\<close>

lemma chain_None [simp]: "chain s None = {}"
proof -
  have "j \<in> chain s None \<Longrightarrow> False" for j
    by (induction rule: chain.induct) simp_all
  then show ?thesis by blast
qed

lemma chain_Some: "chain s (Some c) = insert c (chain s (parent (s ! c)))"
proof (intro set_eqI iffI)
  fix x assume "x \<in> chain s (Some c)"
  then show "x \<in> insert c (chain s (parent (s ! c)))"
  proof (induction rule: chain.induct)
    case (chain_here c')
    then show ?case by simp
  next
    case (chain_up j p)
    then show ?case by (auto intro: chain.intros)
  qed
next
  fix x assume x: "x \<in> insert c (chain s (parent (s ! c)))"
  show "x \<in> chain s (Some c)"
  proof (cases "x = c")
    case True
    then show ?thesis by (simp add: chain_here)
  next
    case False
    with x have "x \<in> chain s (parent (s ! c))" by simp
    then show ?thesis
    proof (induction rule: chain.induct)
      case (chain_here c')
      then show ?case by (auto intro: chain_up[OF chain.chain_here[OF refl]])
    next
      case (chain_up j p)
      then show ?case by (auto intro: chain.chain_up)
    qed
  qed
qed

lemma chain_le:
  assumes "forest_ok s" "c < length s"
  shows "j \<in> chain s (Some c) \<Longrightarrow> j \<le> c"
proof (induction rule: chain.induct)
  case (chain_here c')
  then show ?case by simp
next
  case (chain_up j p)
  with forest_ok_parent_less[OF assms(1), of j p] assms(2) show ?case by simp
qed

lemma chain_cong:
  assumes "\<And>j. j \<in> chain s cur \<Longrightarrow> parent (s' ! j) = parent (s ! j)"
  shows "chain s' cur = chain s cur"
proof (intro set_eqI iffI)
  fix x assume "x \<in> chain s' cur"
  then show "x \<in> chain s cur"
  proof (induction rule: chain.induct)
    case (chain_here c)
    then show ?case by (rule chain.chain_here)
  next
    case (chain_up j p)
    with assms[of j] show ?case by (auto intro: chain.chain_up)
  qed
next
  fix x assume "x \<in> chain s cur"
  then show "x \<in> chain s' cur"
  proof (induction rule: chain.induct)
    case (chain_here c)
    then show ?case by (rule chain.chain_here)
  next
    case (chain_up j p)
    with assms[of j] show ?case by (auto intro: chain.chain_up)
  qed
qed

lemma chain_parent_subset:
  assumes "forest_ok s" "c < length s"
  shows "chain s (parent (s ! c)) \<subseteq> chain s (Some c) - {c}"
proof (cases "parent (s ! c)")
  case None
  then show ?thesis by simp
next
  case (Some p)
  from forest_ok_parent_less[OF assms Some] have p: "p < c" .
  then have "p < length s" using assms(2) by simp
  from chain_le[OF assms(1) this] p have "c \<notin> chain s (Some p)" by fastforce
  then show ?thesis using Some by (subst chain_Some[of s c]) auto
qed

text \<open>Where the \<^verbatim>\<open>while\<close> loop stops, and what it has passed.\<close>

lemma closeOut_chain:
  assumes ok: "forest_ok s"
  shows "c < length s \<Longrightarrow> closeOut s t (Some c) = Some r \<Longrightarrow>
         chain s r \<subseteq> chain s (Some c) \<and>
         (\<forall>j\<in>chain s (Some c). j \<notin> chain s r \<longrightarrow> (\<exists>e. endTime (s ! j) = Num e \<and> e \<le> t))"
proof (induction c rule: less_induct)
  case (less c)
  show ?case
  proof (cases "isFinite (endTime (s ! c)) \<and> num_le (endTime (s ! c)) (Num t)")
    case False
    with less.prems(2) have "r = Some c" by (subst (asm) closeOut.simps) simp
    then show ?thesis by simp
  next
    case True
    then obtain e where e: "endTime (s ! c) = Num e" "e \<le> t"
      by (cases "endTime (s ! c)") simp_all
    from True less.prems(2) have rec: "closeOut s t (parent (s ! c)) = Some r"
      by (subst (asm) closeOut.simps) simp
    show ?thesis
    proof (cases "parent (s ! c)")
      case None
      with rec have "r = None" by (simp add: closeOut.simps)
      with e None show ?thesis by (simp add: chain_Some[of s c])
    next
      case (Some p)
      from forest_ok_parent_less[OF ok less.prems(1) Some] have p: "p < c" .
      then have pl: "p < length s" using less.prems(1) by simp
      from less.IH[OF p pl] rec Some
      have IH: "chain s r \<subseteq> chain s (Some p)"
        "\<forall>j\<in>chain s (Some p). j \<notin> chain s r \<longrightarrow> (\<exists>e. endTime (s ! j) = Num e \<and> e \<le> t)"
        by simp_all
      have cs: "chain s (Some c) = insert c (chain s (Some p))"
        using Some by (subst chain_Some) simp
      from chain_le[OF ok pl] p have "c \<notin> chain s (Some p)" by fastforce
      with IH(1) have "c \<notin> chain s r" by blast
      with IH e show ?thesis unfolding cs by blast
    qed
  qed
qed

lemma processEvent_cases:
  assumes "cursor_ok st" and "processEvent ev st = Some (Inr st')"
    and "ph ev = ''X'' \<or> ph ev = ''B'' \<or> ph ev = ''E''"
  obtains
    (create) r where "closeOut (tasks_of st) (ts ev) (currentTask_of st) = Some r"
      and "\<And>c. r = Some c \<Longrightarrow> c < length (tasks_of st)" and "ph ev \<noteq> ''E''"
      and "st' = \<lparr>tasks_of = createNewTaskNode ev r (tasks_of st),
                  currentTask_of = Some (length (tasks_of st))\<rparr>"
  | (close) c where "closeOut (tasks_of st) (ts ev) (currentTask_of st) = Some (Some c)"
      and "c < length (tasks_of st)" and "ph ev = ''E''"
      and "ph (event (tasks_of st ! c)) = ''B''"
      and "st' = \<lparr>tasks_of = (tasks_of st)[c := (tasks_of st ! c)\<lparr>endTime := Num (ts ev)\<rparr>],
                  currentTask_of = parent (tasks_of st ! c)\<rparr>"
proof -
  from closeOut_cursor[OF assms(1), of "ts ev"] obtain r where
    r: "closeOut (tasks_of st) (ts ev) (currentTask_of st) = Some r"
    and bound: "\<And>c. r = Some c \<Longrightarrow> c < length (tasks_of st)" by blast
  show ?thesis
  proof (cases r)
    case None
    with r assms(2) have "ph ev \<noteq> ''E''"
      "st' = \<lparr>tasks_of = createNewTaskNode ev None (tasks_of st),
              currentTask_of = Some (length (tasks_of st))\<rparr>"
      by (auto simp: processEvent_def split: if_splits)
    with r None show ?thesis by (intro create[of r]) simp_all
  next
    case (Some c)
    show ?thesis
    proof (cases "ph ev = ''E''")
      case False
      with r Some assms(2,3) have "st' = \<lparr>tasks_of = createNewTaskNode ev (Some c) (tasks_of st),
              currentTask_of = Some (length (tasks_of st))\<rparr>"
        by (auto simp: processEvent_def split: if_splits)
      with r Some False bound show ?thesis by (intro create[of r]) simp_all
    next
      case True
      with r Some assms(2) have "ph (event (tasks_of st ! c)) = ''B''"
        "st' = \<lparr>tasks_of = (tasks_of st)[c := (tasks_of st ! c)\<lparr>endTime := Num (ts ev)\<rparr>],
                  currentTask_of = parent (tasks_of st ! c)\<rparr>"
        by (auto simp: processEvent_def split: if_splits)
      with r Some True bound show ?thesis by (intro close[of c]) simp_all
    qed
  qed
qed

lemma closeOut_from_cursor:
  assumes "cursor_ok st" and "closeOut (tasks_of st) t (currentTask_of st) = Some r"
  shows "chain (tasks_of st) r \<subseteq> chain (tasks_of st) (currentTask_of st) \<and>
         (\<forall>j\<in>chain (tasks_of st) (currentTask_of st). j \<notin> chain (tasks_of st) r \<longrightarrow>
            (\<exists>e. endTime (tasks_of st ! j) = Num e \<and> e \<le> t))"
proof (cases "currentTask_of st")
  case None
  with assms(2) show ?thesis by (simp add: closeOut.simps)
next
  case (Some c)
  with assms show ?thesis using closeOut_chain[of "tasks_of st" c t r] by (simp add: cursor_ok_def)
qed

lemma chain_create:
  assumes ok: "forest_ok s" and par: "\<And>c. par = Some c \<Longrightarrow> c < length s"
  shows "chain (createNewTaskNode ev par s) (Some (length s)) = insert (length s) (chain s par)"
proof -
  have same: "chain (createNewTaskNode ev par s) par = chain s par"
  proof (rule chain_cong)
    fix j assume j: "j \<in> chain s par"
    then obtain c where c: "par = Some c" by (cases par) simp_all
    with chain_le[OF ok par[OF c]] j par[OF c] have "j < length s" by fastforce
    then show "parent (createNewTaskNode ev par s ! j) = parent (s ! j)"
      by (simp add: createNewTaskNode_old)
  qed
  show ?thesis
    by (subst chain_Some) (simp add: createNewTaskNode_new same)
qed

lemma chain_update:
  assumes "parent t = parent (s ! c)"
  shows "chain (s[c := t]) cur = chain s cur"
proof (rule chain_cong)
  fix j show "parent (s[c := t] ! j) = parent (s ! j)"
    using assms by (cases "c < length s") (simp_all add: nth_list_update list_update_beyond)
qed

lemma begins_open_create:
  assumes ok: "forest_ok s" and par: "\<And>c. par = Some c \<Longrightarrow> c < length s"
    and bo: "begins_open s par"
  shows "begins_open (createNewTaskNode ev par s) (Some (length s))"
proof -
  have "endTime (createNewTaskNode ev par s ! j) = NaN"
    if j: "j \<in> insert (length s) (chain s par)"
    and b: "ph (event (createNewTaskNode ev par s ! j)) = ''B''" for j
  proof (cases "j = length s")
    case True
    with b show ?thesis by (simp add: createNewTaskNode_new)
  next
    case False
    with j have jc: "j \<in> chain s par" by simp
    then obtain c where c: "par = Some c" by (cases par) simp_all
    with chain_le[OF ok par[OF c]] jc par[OF c] have jl: "j < length s" by fastforce
    with b have "ph (event (s ! j)) = ''B''" by (simp add: createNewTaskNode_old split: if_splits)
    with bo jc have "endTime (s ! j) = NaN" by (simp add: begins_open_def)
    with jl show ?thesis by (simp add: createNewTaskNode_old)
  qed
  then show ?thesis by (simp add: begins_open_def chain_create[OF ok par])
qed

lemma begins_open_end:
  assumes ok: "forest_ok s" and c: "c < length s" and bo: "begins_open s (Some c)"
  shows "begins_open (s[c := (s ! c)\<lparr>endTime := e\<rparr>]) (parent (s ! c))"
  unfolding begins_open_def
proof (intro ballI impI)
  let ?s' = "s[c := (s ! c)\<lparr>endTime := e\<rparr>]"
  fix j assume j: "j \<in> chain ?s' (parent (s ! c))" and b: "ph (event (?s' ! j)) = ''B''"
  have "chain ?s' (parent (s ! c)) = chain s (parent (s ! c))" by (rule chain_update) simp
  with j chain_parent_subset[OF ok c] have jc: "j \<in> chain s (Some c)" and ne: "j \<noteq> c" by auto
  from b ne have "ph (event (s ! j)) = ''B''" by simp
  with bo jc have "endTime (s ! j) = NaN" by (simp add: begins_open_def)
  with ne show "endTime (?s' ! j) = NaN" by simp
qed

lemma map_endTime_create:
  "map endTime (createNewTaskNode ev par s) =
     map endTime s @ [if ph ev = ''X''
                      then Num (ts ev + (case dur ev of None \<Rightarrow> 0 | Some d \<Rightarrow> d)) else NaN]"
proof (rule nth_equalityI)
  show "length (map endTime (createNewTaskNode ev par s)) =
        length (map endTime s @ [if ph ev = ''X''
                      then Num (ts ev + (case dur ev of None \<Rightarrow> 0 | Some d \<Rightarrow> d)) else NaN])"
    by simp
next
  fix i assume "i < length (map endTime (createNewTaskNode ev par s))"
  then have "i < length s \<or> i = length s" by auto
  then show "map endTime (createNewTaskNode ev par s) ! i =
        (map endTime s @ [if ph ev = ''X''
                      then Num (ts ev + (case dur ev of None \<Rightarrow> 0 | Some d \<Rightarrow> d)) else NaN]) ! i"
    by (auto simp: nth_append createNewTaskNode_old createNewTaskNode_new)
qed

lemma count_open_create:
  "count_open (createNewTaskNode ev par s) = count_open s + (if ph ev = ''X'' then 0 else 1)"
  by (simp add: count_open_def map_endTime_create)

lemma count_NaN_update:
  "c < length xs \<Longrightarrow> xs ! c = NaN \<Longrightarrow>
     Suc (length (filter (\<lambda>e. e = NaN) (xs[c := Num t]))) = length (filter (\<lambda>e. e = NaN) xs)"
proof (induction xs arbitrary: c)
  case Nil
  then show ?case by simp
next
  case (Cons x xs)
  then show ?case by (cases c) auto
qed

lemma count_open_end:
  assumes "c < length s" "endTime (s ! c) = NaN"
  shows "Suc (count_open (s[c := (s ! c)\<lparr>endTime := Num t\<rparr>])) = count_open s"
proof -
  have "map endTime (s[c := (s ! c)\<lparr>endTime := Num t\<rparr>]) = (map endTime s)[c := Num t]"
    by (simp add: map_update)
  then show ?thesis using assms count_NaN_update[of c "map endTime s" t] by (simp add: count_open_def)
qed

lemma processEvent_open:
  assumes cur: "cursor_ok st" and bo: "begins_open (tasks_of st) (currentTask_of st)"
    and step: "processEvent ev st = Some (Inr st')"
    and phase: "ph ev = ''X'' \<or> ph ev = ''B'' \<or> ph ev = ''E''"
  shows "begins_open (tasks_of st') (currentTask_of st') \<and>
         count_open (tasks_of st') + (if ph ev = ''E'' then 1 else 0)
           = count_open (tasks_of st) + (if ph ev = ''B'' then 1 else 0)"
  using cur step phase
proof (cases rule: processEvent_cases)
  case (create r)
  have ok: "forest_ok (tasks_of st)" using cur by (simp add: cursor_ok_def)
  from closeOut_from_cursor[OF cur create(1)] bo have "begins_open (tasks_of st) r"
    unfolding begins_open_def by blast
  from begins_open_create[OF ok create(2) this, of ev] create(3,4) phase show ?thesis
    by (auto simp: count_open_create)
next
  case (close c)
  have ok: "forest_ok (tasks_of st)" using cur by (simp add: cursor_ok_def)
  from closeOut_from_cursor[OF cur close(1)] bo have boc: "begins_open (tasks_of st) (Some c)"
    unfolding begins_open_def by blast
  have "c \<in> chain (tasks_of st) (Some c)" by (rule chain_here) simp
  with boc close(4) have nan: "endTime (tasks_of st ! c) = NaN" by (simp add: begins_open_def)
  from count_open_end[OF close(2) nan, of "ts ev"] begins_open_end[OF ok close(2) boc, of "Num (ts ev)"]
    close(3,5)
  show ?thesis by simp
qed

lemma createLoop_open:
  "cursor_ok st \<Longrightarrow> begins_open (tasks_of st) (currentTask_of st) \<Longrightarrow>
   createLoop se evs st = Some (Inr st') \<Longrightarrow>
   count_open (tasks_of st') + countPh se ''E'' evs = count_open (tasks_of st) + countPh se ''B'' evs"
proof (induction evs arbitrary: st)
  case Nil
  then show ?case by (simp add: countPh_def)
next
  case (Cons ev evs)
  show ?case
  proof (cases "mainThreadEvent se ev")
    case False
    then have "createLoop se (ev # evs) st = createLoop se evs st"
      by (auto simp: mainThreadEvent_def)
    with Cons False show ?thesis by (simp add: countPh_def)
  next
    case True
    then have phase: "ph ev = ''X'' \<or> ph ev = ''B'' \<or> ph ev = ''E''"
      by (simp add: mainThreadEvent_def)
    from True Cons.prems(3) obtain st1 where
      step: "processEvent ev st = Some (Inr st1)" and rest: "createLoop se evs st1 = Some (Inr st')"
      by (auto simp: mainThreadEvent_def split: option.splits sum.splits)
    from processEvent_cursor_ok[OF Cons.prems(1), of ev] step have c1: "cursor_ok st1" by simp
    from processEvent_open[OF Cons.prems(1,2) step phase]
    have b1: "begins_open (tasks_of st1) (currentTask_of st1)"
      and n1: "count_open (tasks_of st1) + (if ph ev = ''E'' then 1 else 0)
           = count_open (tasks_of st) + (if ph ev = ''B'' then 1 else 0)" by simp_all
    from Cons.IH[OF c1 b1 rest] n1 True show ?thesis by (auto simp: countPh_def)
  qed
qed

lemma count_open_pos: "(0 < count_open s) = (\<exists>i<length s. endTime (s ! i) = NaN)"
proof -
  have "(0 < count_open s) = (\<exists>t\<in>set s. endTime t = NaN)"
    by (auto simp: count_open_def filter_empty_conv)
  also have "\<dots> = (\<exists>i<length s. endTime (s ! i) = NaN)"
    by (metis in_set_conv_nth)
  finally show ?thesis .
qed

lemma created_open_count:
  assumes "createTasksFromEvents traceEvents = Some (Inr s)"
    and "findTracingStartedEvt traceEvents = Inr se"
  shows "count_open s + countPh se ''E'' traceEvents = countPh se ''B'' traceEvents"
proof -
  let ?init = "\<lparr>tasks_of = [], currentTask_of = None\<rparr>"
  have init: "cursor_ok ?init" "begins_open (tasks_of ?init) (currentTask_of ?init)"
    by (simp_all add: cursor_ok_def forest_ok_def begins_open_def)
  from assms obtain st where
    "createLoop se traceEvents ?init = Some (Inr st)" and s: "s = tasks_of st"
    by (auto simp: createTasksFromEvents_def split: option.splits sum.splits)
  from createLoop_open[OF init this(1)] s show ?thesis by (simp add: count_open_def)
qed

section \<open>Timing of the reconstructed tasks\<close>

lemma createNewTaskNode_old_fields:
  assumes "j < length s"
  shows "event (createNewTaskNode ev par s ! j) = event (s ! j)"
    and "startTime (createNewTaskNode ev par s ! j) = startTime (s ! j)"
    and "endTime (createNewTaskNode ev par s ! j) = endTime (s ! j)"
    and "parent (createNewTaskNode ev par s ! j) = parent (s ! j)"
  using assms by (simp_all add: createNewTaskNode_old)

lemma end_update_fields:
  assumes "c < length s"
  shows "event (s[c := (s ! c)\<lparr>endTime := e\<rparr>] ! j) = event (s ! j)"
    and "startTime (s[c := (s ! c)\<lparr>endTime := e\<rparr>] ! j) = startTime (s ! j)"
    and "parent (s[c := (s ! c)\<lparr>endTime := e\<rparr>] ! j) = parent (s ! j)"
    and "endTime (s[c := (s ! c)\<lparr>endTime := e\<rparr>] ! j) = (if j = c then e else endTime (s ! j))"
  using assms by (simp_all add: nth_list_update)

lemma starts_ok_mono: "starts_ok T s \<Longrightarrow> T \<le> T' \<Longrightarrow> starts_ok T' s"
  unfolding starts_ok_def by (meson order_trans)

lemma starts_ok_create:
  assumes "starts_ok (ts ev) s"
  shows "starts_ok (ts ev) (createNewTaskNode ev par s)"
  unfolding starts_ok_def
proof (intro allI impI)
  fix j assume "j < length (createNewTaskNode ev par s)"
  then have "j < length s \<or> j = length s" by auto
  then show "startTime (createNewTaskNode ev par s ! j) = Num (ts (event (createNewTaskNode ev par s ! j)))
      \<and> ts (event (createNewTaskNode ev par s ! j)) \<le> ts ev"
  proof
    assume j: "j < length s"
    with assms show ?thesis by (simp add: starts_ok_def createNewTaskNode_old_fields)
  next
    assume "j = length s"
    then show ?thesis by (simp add: createNewTaskNode_new)
  qed
qed

lemma starts_ok_end:
  assumes "starts_ok T s" "c < length s"
  shows "starts_ok T (s[c := (s ! c)\<lparr>endTime := e\<rparr>])"
  using assms by (simp add: starts_ok_def end_update_fields)

lemma parents_earlier_create:
  assumes ok: "forest_ok s" and par: "\<And>c. par = Some c \<Longrightarrow> c < length s"
    and st: "starts_ok (ts ev) s" and pe: "parents_earlier s"
  shows "parents_earlier (createNewTaskNode ev par s)"
  unfolding parents_earlier_def
proof (intro allI impI)
  fix j p
  assume jl: "j < length (createNewTaskNode ev par s)"
    and jp: "parent (createNewTaskNode ev par s ! j) = Some p"
  from jl have "j < length s \<or> j = length s" by auto
  then show "ts (event (createNewTaskNode ev par s ! p)) \<le> ts (event (createNewTaskNode ev par s ! j))"
  proof
    assume j: "j < length s"
    with jp have p: "parent (s ! j) = Some p" by (simp add: createNewTaskNode_old_fields)
    from forest_ok_parent_less[OF ok j p] j have "p < length s" by simp
    with pe j p show ?thesis by (simp add: parents_earlier_def createNewTaskNode_old_fields)
  next
    assume j: "j = length s"
    with jp have "par = Some p" by (simp add: createNewTaskNode_new)
    from par[OF this] st have "ts (event (s ! p))  \<le> ts ev" "p < length s"
      by (simp_all add: starts_ok_def)
    with j show ?thesis by (simp add: createNewTaskNode_new createNewTaskNode_old_fields)
  qed
qed

lemma parents_earlier_end:
  assumes "parents_earlier s" "c < length s"
  shows "parents_earlier (s[c := (s ! c)\<lparr>endTime := e\<rparr>])"
  using assms by (simp add: parents_earlier_def end_update_fields)

lemma left_ended_closeOut:
  assumes "cursor_ok st" and "closeOut (tasks_of st) t (currentTask_of st) = Some r"
    and le: "left_ended T (tasks_of st) (currentTask_of st)" and "T \<le> t"
  shows "left_ended t (tasks_of st) r"
  unfolding left_ended_def
proof (intro allI impI)
  fix j assume j: "j < length (tasks_of st)" and out: "j \<notin> chain (tasks_of st) r"
  show "\<exists>e. endTime (tasks_of st ! j) = Num e \<and> e \<le> t"
  proof (cases "j \<in> chain (tasks_of st) (currentTask_of st)")
    case True
    with closeOut_from_cursor[OF assms(1,2)] out show ?thesis by blast
  next
    case False
    with le j obtain e where "endTime (tasks_of st ! j) = Num e" "e \<le> T"
      unfolding left_ended_def by blast
    with \<open>T \<le> t\<close> show ?thesis by auto
  qed
qed

lemma left_ended_create:
  assumes ok: "forest_ok s" and par: "\<And>c. par = Some c \<Longrightarrow> c < length s"
    and le: "left_ended T s par"
  shows "left_ended T (createNewTaskNode ev par s) (Some (length s))"
proof -
  have "\<exists>e. endTime (createNewTaskNode ev par s ! j) = Num e \<and> e \<le> T"
    if "j < length (createNewTaskNode ev par s)" "j \<notin> insert (length s) (chain s par)" for j
  proof -
    from that have j: "j < length s" by auto
    with le that(2) show ?thesis by (simp add: left_ended_def createNewTaskNode_old_fields)
  qed
  moreover have "chain (createNewTaskNode ev par s) (Some (length s))
      = insert (length s) (chain s par)"
    by (rule chain_create[OF ok par])
  ultimately show ?thesis unfolding left_ended_def by simp
qed

lemma left_ended_end:
  assumes ok: "forest_ok s" and c: "c < length s" and le: "left_ended t s (Some c)"
  shows "left_ended t (s[c := (s ! c)\<lparr>endTime := Num t\<rparr>]) (parent (s ! c))"
  unfolding left_ended_def
proof (intro allI impI)
  let ?s' = "s[c := (s ! c)\<lparr>endTime := Num t\<rparr>]"
  fix j assume jl: "j < length ?s'" and out: "j \<notin> chain ?s' (parent (s ! c))"
  have same: "chain ?s' (parent (s ! c)) = chain s (parent (s ! c))" by (rule chain_update) simp
  show "\<exists>e. endTime (?s' ! j) = Num e \<and> e \<le> t"
  proof (cases "j = c")
    case True
    with c show ?thesis by simp
  next
    case False
    with out same have "j \<notin> chain s (Some c)" by (subst chain_Some) simp
    with le jl False c show ?thesis by (simp add: left_ended_def)
  qed
qed

lemma begin_contains_create:
  assumes ok: "forest_ok s" and par: "\<And>c. par = Some c \<Longrightarrow> c < length s"
    and bo: "begins_open s par" and bc: "begin_contains s"
  shows "begin_contains (createNewTaskNode ev par s)"
  unfolding begin_contains_def
proof (intro allI impI)
  let ?s' = "createNewTaskNode ev par s"
  fix j p
  assume jl: "j < length ?s'" and jp: "parent (?s' ! j) = Some p" and b: "ph (event (?s' ! p)) = ''B''"
  from jl have "j < length s \<or> j = length s" by auto
  then show "endTime (?s' ! p) = NaN \<or>
      (\<exists>e ep. endTime (?s' ! j) = Num e \<and> endTime (?s' ! p) = Num ep \<and> e \<le> ep)"
  proof
    assume j: "j < length s"
    with jp have p: "parent (s ! j) = Some p" by (simp add: createNewTaskNode_old_fields)
    from forest_ok_parent_less[OF ok j p] j have pl: "p < length s" by simp
    with b have "ph (event (s ! p)) = ''B''" by (simp add: createNewTaskNode_old_fields)
    with bc j p have "endTime (s ! p) = NaN \<or>
        (\<exists>e ep. endTime (s ! j) = Num e \<and> endTime (s ! p) = Num ep \<and> e \<le> ep)"
      unfolding begin_contains_def by blast
    with j pl show ?thesis by (simp add: createNewTaskNode_old_fields)
  next
    assume j: "j = length s"
    with jp have pp: "par = Some p" by (simp add: createNewTaskNode_new)
    from par[OF pp] have pl: "p < length s" .
    with b have "ph (event (s ! p)) = ''B''" by (simp add: createNewTaskNode_old_fields)
    moreover have "p \<in> chain s par" using pp by (intro chain_here)
    ultimately have "endTime (s ! p) = NaN" using bo by (simp add: begins_open_def)
    with pl show ?thesis by (simp add: createNewTaskNode_old_fields)
  qed
qed

lemma begin_contains_end:
  assumes ok: "forest_ok s" and c: "c < length s"
    and bo: "begins_open s (Some c)" and le: "left_ended t s (Some c)" and bc: "begin_contains s"
  shows "begin_contains (s[c := (s ! c)\<lparr>endTime := Num t\<rparr>])"
  unfolding begin_contains_def
proof (intro allI impI)
  let ?s' = "s[c := (s ! c)\<lparr>endTime := Num t\<rparr>]"
  fix j p
  assume jl: "j < length ?s'" and jp: "parent (?s' ! j) = Some p" and b: "ph (event (?s' ! p)) = ''B''"
  from jl have j: "j < length s" by simp
  from jp c have p: "parent (s ! j) = Some p" by (simp add: end_update_fields)
  from forest_ok_parent_less[OF ok j p] have pj: "p < j" .
  from b c have bp: "ph (event (s ! p)) = ''B''" by (simp add: end_update_fields)
  show "endTime (?s' ! p) = NaN \<or>
      (\<exists>e ep. endTime (?s' ! j) = Num e \<and> endTime (?s' ! p) = Num ep \<and> e \<le> ep)"
  proof (cases "p = c")
    case True
    with pj have "c < j" by simp
    with chain_le[OF ok c, of j] have "j \<notin> chain s (Some c)" by fastforce
    with le j obtain e where "endTime (s ! j) = Num e" "e \<le> t" unfolding left_ended_def by blast
    with True \<open>c < j\<close> c show ?thesis by (simp add: end_update_fields)
  next
    case False
    show ?thesis
    proof (cases "j = c")
      case True
      with p have "p \<in> chain s (Some c)"
        by (intro chain_up[OF chain_here[OF refl]]) simp
      with bo bp have "endTime (s ! p) = NaN" by (simp add: begins_open_def)
      with False c show ?thesis by (simp add: end_update_fields)
    next
      case jc: False
      from bc j p bp have "endTime (s ! p) = NaN \<or>
          (\<exists>e ep. endTime (s ! j) = Num e \<and> endTime (s ! p) = Num ep \<and> e \<le> ep)"
        unfolding begin_contains_def by blast
      with False jc c show ?thesis by (simp add: end_update_fields)
    qed
  qed
qed

lemma processEvent_timing:
  assumes cur: "cursor_ok st" and inv: "timing_ok T st" and T: "T \<le> ts ev"
    and step: "processEvent ev st = Some (Inr st')"
    and phase: "ph ev = ''X'' \<or> ph ev = ''B'' \<or> ph ev = ''E''"
  shows "timing_ok (ts ev) st'"
  using cur step phase
proof (cases rule: processEvent_cases)
  case (create r)
  let ?s = "tasks_of st"
  have ok: "forest_ok ?s" using cur by (simp add: cursor_ok_def)
  have so: "starts_ok (ts ev) ?s" using inv T by (auto simp: timing_ok_def intro: starts_ok_mono)
  have pe: "parents_earlier ?s" and bc: "begin_contains ?s" using inv by (simp_all add: timing_ok_def)
  have bo: "begins_open ?s r"
    using closeOut_from_cursor[OF cur create(1)] inv unfolding timing_ok_def begins_open_def by blast
  have le: "left_ended (ts ev) ?s r"
    using left_ended_closeOut[OF cur create(1) _ T] inv by (simp add: timing_ok_def)
  show ?thesis
    unfolding timing_ok_def create(4)
    using starts_ok_create[OF so, of r] parents_earlier_create[OF ok create(2) so pe]
      left_ended_create[OF ok create(2) le, of ev] begin_contains_create[OF ok create(2) bo bc, of ev]
      begins_open_create[OF ok create(2) bo, of ev]
    by simp
next
  case (close c)
  let ?s = "tasks_of st"
  have ok: "forest_ok ?s" using cur by (simp add: cursor_ok_def)
  have so: "starts_ok (ts ev) ?s" using inv T by (auto simp: timing_ok_def intro: starts_ok_mono)
  have pe: "parents_earlier ?s" and bc: "begin_contains ?s" using inv by (simp_all add: timing_ok_def)
  have bo: "begins_open ?s (Some c)"
    using closeOut_from_cursor[OF cur close(1)] inv unfolding timing_ok_def begins_open_def by blast
  have le: "left_ended (ts ev) ?s (Some c)"
    using left_ended_closeOut[OF cur close(1) _ T] inv by (simp add: timing_ok_def)
  show ?thesis
    unfolding timing_ok_def close(5)
    using starts_ok_end[OF so close(2), of "Num (ts ev)"] parents_earlier_end[OF pe close(2), of "Num (ts ev)"]
      left_ended_end[OF ok close(2) le] begin_contains_end[OF ok close(2) bo le bc]
      begins_open_end[OF ok close(2) bo, of "Num (ts ev)"]
    by simp
qed

lemma createLoop_timing:
  "cursor_ok st \<Longrightarrow> timing_ok T st \<Longrightarrow>
   sorted (map ts (filter (mainThreadEvent se) evs)) \<Longrightarrow>
   (\<forall>e\<in>set (filter (mainThreadEvent se) evs). T \<le> ts e) \<Longrightarrow>
   createLoop se evs st = Some (Inr st') \<Longrightarrow> \<exists>T'. timing_ok T' st'"
proof (induction evs arbitrary: st T)
  case Nil
  then show ?case by auto
next
  case (Cons ev evs)
  show ?case
  proof (cases "mainThreadEvent se ev")
    case False
    then have "createLoop se (ev # evs) st = createLoop se evs st"
      by (auto simp: mainThreadEvent_def)
    with Cons.prems False Cons.IH[of st T] show ?thesis by simp
  next
    case True
    then have phase: "ph ev = ''X'' \<or> ph ev = ''B'' \<or> ph ev = ''E''"
      by (simp add: mainThreadEvent_def)
    from True Cons.prems(5) obtain st1 where
      step: "processEvent ev st = Some (Inr st1)" and rest: "createLoop se evs st1 = Some (Inr st')"
      by (auto simp: mainThreadEvent_def split: option.splits sum.splits)
    from processEvent_cursor_ok[OF Cons.prems(1), of ev] step have c1: "cursor_ok st1" by simp
    have T: "T \<le> ts ev" using Cons.prems(4) True by simp
    from processEvent_timing[OF Cons.prems(1,2) T step phase] have t1: "timing_ok (ts ev) st1" .
    have sorted': "sorted (map ts (filter (mainThreadEvent se) evs))"
      and later: "\<forall>e\<in>set (filter (mainThreadEvent se) evs). ts ev \<le> ts e"
      using Cons.prems(3) True by simp_all
    from Cons.IH[OF c1 t1 sorted' later rest] show ?thesis .
  qed
qed

lemma created_timing:
  assumes "createTasksFromEvents traceEvents = Some (Inr s)"
    and "findTracingStartedEvt traceEvents = Inr se"
    and "sorted (map ts (filter (mainThreadEvent se) traceEvents))"
  shows "\<exists>T. starts_ok T s \<and> parents_earlier s \<and> begin_contains s"
proof -
  let ?init = "\<lparr>tasks_of = [], currentTask_of = None\<rparr>"
  let ?evs = "filter (mainThreadEvent se) traceEvents"
  obtain T where T: "\<forall>e\<in>set ?evs. T \<le> ts e"
  proof (cases ?evs)
    case Nil
    then show ?thesis using that[of 0] by simp
  next
    case (Cons e es)
    with assms(3) show ?thesis using that[of "ts e"] by auto
  qed
  have init: "cursor_ok ?init" "timing_ok T ?init"
    by (simp_all add: cursor_ok_def forest_ok_def timing_ok_def starts_ok_def parents_earlier_def
          left_ended_def begin_contains_def begins_open_def)
  from assms obtain st where
    loop: "createLoop se traceEvents ?init = Some (Inr st)" and s: "s = tasks_of st"
    by (auto simp: createTasksFromEvents_def split: option.splits sum.splits)
  from createLoop_timing[OF init assms(3) T loop] s show ?thesis
    by (auto simp: timing_ok_def)
qed

lemma num_div1000_finite [simp]: "isFinite (num_div1000 x) = isFinite x"
  by (cases x) simp_all

lemma num_sub_finite [simp]: "isFinite (num_sub a b) = (isFinite a \<and> isFinite b)"
  by (cases a; cases b) simp_all

lemma num_add_finite [simp]: "isFinite (num_add a b) = (isFinite a \<and> isFinite b)"
  by (cases a; cases b) simp_all

lemma isFinite_iff: "isFinite x = (\<exists>r. x = Num r)"
  by (cases x) simp_all

lemma computed_fields [simp]:
  "event (computed k j t) = event t" "startTime (computed k j t) = startTime t"
  "endTime (computed k j t) = endTime t" "parent (computed k j t) = parent t"
  "children (computed k j t) = children t"
  by (simp_all add: computed_def setGroup_def setURL_def setTimes_def)

text \<open>A returned forest, the task list it was computed from, and the finite base time.\<close>

lemma getMainThreadTasks_from_created:
  assumes "getMainThreadTasks traceEvents = Some (Inr res)"
  shows "\<exists>s z. createTasksFromEvents traceEvents = Some (Inr s) \<and> forest_ok s
    \<and> length res = length s
    \<and> (\<forall>j<length s. event (res ! j) = event (s ! j) \<and> parent (res ! j) = parent (s ! j) \<and>
           children (res ! j) = children (s ! j) \<and>
           startTime (res ! j) = num_div1000 (num_sub (startTime (s ! j)) (Num z)) \<and>
           endTime (res ! j) = num_div1000 (num_sub (endTime (s ! j)) (Num z)) \<and>
           isFinite (startTime (s ! j)) \<and> isFinite (endTime (s ! j)))"
proof -
  from getMainThreadTasks_Inr[OF assms] obtain pre where
    pre: "computedTasks traceEvents = Some (Inr pre)" and pd: "passes_done pre"
    and res: "res = map (rescale (firstTs_of pre)) pre"
    and fin: "\<forall>t\<in>set pre. isFinite (selfTime (rescale (firstTs_of pre) t))" by blast
  from computedTasks_cases[of traceEvents] pre obtain s where
    s: "createTasksFromEvents traceEvents = Some (Inr s)" and ok: "forest_ok s"
    and pre_s: "pre = map (\<lambda>j. computed (skeleton s) j (s ! j)) [0..<length s]" by auto
  have len: "length pre = length s" by (simp add: pre_s)
  have finite: "isFinite (startTime (pre ! j)) \<and> isFinite (endTime (pre ! j))" if "j < length pre" for j
  proof -
    from fin that have "isFinite (selfTime (pre ! j))" by (auto dest: nth_mem)
    with passes_done_fields(1,2)[OF pd that] show ?thesis by simp
  qed
  obtain z where z: "firstTs_of pre = Num z"
  proof (cases pre)
    case Nil
    then show ?thesis using that[of 0] by (simp add: firstTs_of_def)
  next
    case (Cons t ts)
    then have "0 < length pre" "firstTs_of pre = startTime (pre ! 0)"
      by (simp_all add: firstTs_of_def)
    with finite[of 0] that show ?thesis by (auto simp: isFinite_iff)
  qed
  have "length res = length s" by (simp add: res len)
  moreover have "event (res ! j) = event (s ! j) \<and> parent (res ! j) = parent (s ! j) \<and>
           children (res ! j) = children (s ! j) \<and>
           startTime (res ! j) = num_div1000 (num_sub (startTime (s ! j)) (Num z)) \<and>
           endTime (res ! j) = num_div1000 (num_sub (endTime (s ! j)) (Num z)) \<and>
           isFinite (startTime (s ! j)) \<and> isFinite (endTime (s ! j))" if j: "j < length s" for j
  proof -
    from j have jp: "j < length pre" by (simp add: len)
    have "pre ! j = computed (skeleton s) j (s ! j)" using j by (simp add: pre_s)
    then have same: "event (pre ! j) = event (s ! j)" "parent (pre ! j) = parent (s ! j)"
      "children (pre ! j) = children (s ! j)" "startTime (pre ! j) = startTime (s ! j)"
      "endTime (pre ! j) = endTime (s ! j)" by simp_all
    show ?thesis
      using jp finite[OF jp] by (simp add: res same z)
  qed
  ultimately show ?thesis using s ok by blast
qed

section \<open>Scenarios\<close>

lemma mkEvent_sel:
  "ph (mkEvent p n t d) = p" "name (mkEvent p n t d) = n" "ts (mkEvent p n t d) = t"
  "dur (mkEvent p n t d) = d" "pid (mkEvent p n t d) = None" "tid (mkEvent p n t d) = None"
  "args_data (mkEvent p n t d) = Some \<lparr>url = None, stackTrace = None\<rparr>"
  by (simp_all add: mkEvent_def)

lemma find_marker:
  "findTracingStartedEvt (mkEvent ''I'' ''TracingStartedInPage'' t None # evs)
     = Inr (mkEvent ''I'' ''TracingStartedInPage'' t None)"
  by (simp add: findTracingStartedEvt_def mkEvent_sel)

lemma scenario_names_unmapped:
  "taskNameToGroup ''TaskA'' = None" "taskNameToGroup ''TaskB'' = None"
  "taskNameToGroup ''TaskC'' = None"
  by (simp_all add: taskNameToGroup_map_of taskGroups_literal_def nameEntries_def withId_def)

text \<open>
  The recursive equations of the two passes that call themselves under a \<open>\<lambda>\<close>, for a task
  index that is given: they rewrite a concrete call and nothing under the \<open>\<lambda>\<close>.
\<close>

lemmas pass_unfold =
  computeRecursiveAttributableURL.simps[of 0]
  computeRecursiveAttributableURL.simps[of "Suc n"]
  computeRecursiveAttributableURL.simps[of "numeral k"]
  computeRecursiveTaskGroup.simps[of 0]
  computeRecursiveTaskGroup.simps[of "Suc n"]
  computeRecursiveTaskGroup.simps[of "numeral k"]
  for n k

lemma scenario_names_mapped:
  "taskNameToGroup ''EvaluateScript'' = Some ScriptEvaluationGroup"
  "taskNameToGroup ''Layout'' = Some StyleLayoutGroup"
  by (simp_all add: taskNameToGroup_map_of taskGroups_literal_def nameEntries_def withId_def
        ScriptEvaluationGroup_def StyleLayoutGroup_def)

lemma scenario_reads:
  "getProperty taskNameToGroup ''TaskA'' = None" "getProperty taskNameToGroup ''TaskB'' = None"
  "getProperty taskNameToGroup ''TaskC'' = None"
  "getProperty taskNameToGroup ''EvaluateScript'' = Some (Group ScriptEvaluationGroup)"
  "getProperty taskNameToGroup ''Layout'' = Some (Group StyleLayoutGroup)"
  by (simp_all add: getProperty_def objectPrototypeNames_def scenario_names_unmapped
        scenario_names_mapped)

lemmas scenario_eval =
  createTasksFromEvents_def findTracingStartedEvt_def mkEvent_sel processEvent_def
  closeOut.simps createNewTaskNode_def taskGroups_other mkTask_def

lemmas passes_eval =
  upt_rec computeRecursiveSelfTime.simps pass_unfold mkTask_def mkEvent_sel
  scenario_reads taskGroups_other taskURL_def str_or_def obj_or_def

lemma scenarioA_created:
  "createTasksFromEvents (scenarioA b) = Some (Inr
    [mkTask (mkEvent ''X'' ''TaskA'' b (Some 100000))
       (Num b) (Num (b + 100000)) None [1] NaN NaN,
     mkTask (mkEvent ''B'' ''TaskB'' (b + 5000) None)
       (Num (b + 5000)) (Num (b + 55000)) (Some 0) [2] NaN NaN,
     mkTask (mkEvent ''X'' ''TaskC'' (b + 10000) (Some 30000))
       (Num (b + 10000)) (Num (b + 40000)) (Some 1) [] NaN NaN])"
  by (simp add: scenarioA_def scenario_eval)

lemma scenarioA_computed: "computedTasks (scenarioA b) = Some (Inr (scenarioA_pre b))"
  unfolding computedTasks_def scenarioA_created
  by (simp add: passes_eval scenarioA_pre_def)

lemma scenarioA_result: "getMainThreadTasks (scenarioA b) = Some (Inr (scenarioA_tasks b))"
  unfolding getMainThreadTasks_def scenarioA_computed
  by (simp add: firstTs_of_def rescale_def mkTask_def scenarioA_pre_def scenarioA_tasks_def)

lemma scenarioC_created:
  "createTasksFromEvents scenarioC = Some (Inr
    [mkTask (mkEvent ''X'' ''EvaluateScript'' 0 (Some 100000))
       (Num 0) (Num 100000) None [1, 2] NaN NaN,
     mkTask (mkEvent ''X'' ''TaskB'' 10000 (Some 10000))
       (Num 10000) (Num 20000) (Some 0) [] NaN NaN,
     mkTask (mkEvent ''X'' ''Layout'' 30000 (Some 10000))
       (Num 30000) (Num 40000) (Some 0) [] NaN NaN])"
  by (simp add: scenarioC_def scenario_eval)

lemma scenarioC_result: "getMainThreadTasks scenarioC = Some (Inr scenarioC_tasks)"
  unfolding getMainThreadTasks_def computedTasks_def scenarioC_created
  by (simp add: passes_eval firstTs_of_def rescale_def scenarioC_tasks_def)

lemma inherited_read:
  "getProperty taskNameToGroup ''constructor'' = Some (Inherited ''constructor'')"
proof -
  have "taskNameToGroup ''constructor'' = None"
    by (simp add: taskNameToGroup_map_of taskGroups_literal_def nameEntries_def withId_def)
  then show ?thesis by (simp add: getProperty_def objectPrototypeNames_def)
qed

lemma inheritedName_created:
  "createTasksFromEvents inheritedName = Some (Inr
    [mkTask (mkEvent ''X'' ''EvaluateScript'' 0 (Some 100000))
       (Num 0) (Num 100000) None [1] NaN NaN,
     mkTask (mkEvent ''X'' ''constructor'' 10000 (Some 10000))
       (Num 10000) (Num 20000) (Some 0) [] NaN NaN])"
  by (simp add: inheritedName_def scenario_eval)

lemma inheritedName_result:
  "getMainThreadTasks inheritedName = Some (Inr inheritedName_tasks)"
  unfolding getMainThreadTasks_def computedTasks_def inheritedName_created
  by (simp add: passes_eval inherited_read firstTs_of_def rescale_def inheritedName_tasks_def)

lemma scenarioD_created:
  "createTasksFromEvents scenarioD = Some (Inr
    [mkTask ((mkEvent ''X'' ''TaskA'' 0 (Some 100000))
        \<lparr>args_data := Some \<lparr>url = Some ''https://example.com/a.js'', stackTrace = None\<rparr>\<rparr>)
       (Num 0) (Num 100000) None [1] NaN NaN,
     mkTask ((mkEvent ''X'' ''TaskB'' 10000 (Some 10000))
        \<lparr>args_data := Some \<lparr>url = None,
           stackTrace = Some [\<lparr>frame_url = Some ''https://example.com/b.js''\<rparr>]\<rparr>\<rparr>)
       (Num 10000) (Num 20000) (Some 0) [] NaN NaN])"
  by (simp add: scenarioD_def scenario_eval)

lemma scenarioD_result: "getMainThreadTasks scenarioD = Some (Inr scenarioD_tasks)"
  unfolding getMainThreadTasks_def computedTasks_def scenarioD_created
  by (simp add: passes_eval firstTs_of_def rescale_def scenarioD_tasks_def)

lemma unclosedBegin_created:
  "createTasksFromEvents unclosedBegin = Some (Inr
    [mkTask (mkEvent ''B'' ''TaskB'' 0 None) (Num 0) NaN None [] NaN NaN])"
  by (simp add: unclosedBegin_def scenario_eval)

lemma overrun_created:
  "createTasksFromEvents overrun = Some (Inr
    [mkTask (mkEvent ''X'' ''TaskA'' 0 (Some 100000)) (Num 0) (Num 100000) None [1] NaN NaN,
     mkTask (mkEvent ''X'' ''TaskB'' 10000 (Some 200000))
       (Num 10000) (Num 210000) (Some 0) [] NaN NaN])"
  by (simp add: overrun_def scenario_eval)

lemma overrun_result: "getMainThreadTasks overrun = Some (Inr overrun_tasks)"
  unfolding getMainThreadTasks_def computedTasks_def overrun_created
  by (simp add: passes_eval firstTs_of_def rescale_def overrun_tasks_def)

lemma unordered_created:
  "createTasksFromEvents unordered = Some (Inr
    [mkTask (mkEvent ''X'' ''TaskA'' 10000 (Some 100000))
       (Num 10000) (Num 110000) None [1] NaN NaN,
     mkTask (mkEvent ''X'' ''TaskB'' 5000 (Some 1000))
       (Num 5000) (Num 6000) (Some 0) [] NaN NaN])"
  by (simp add: unordered_def scenario_eval)

lemma unordered_result: "getMainThreadTasks unordered = Some (Inr unordered_tasks)"
  unfolding getMainThreadTasks_def computedTasks_def unordered_created
  by (simp add: passes_eval firstTs_of_def rescale_def unordered_tasks_def)

section \<open>Nesting and timing\<close>

text \<open>
  Claim C1. On the four events of Scenario A, whatever the base time, \<^verbatim>\<open>getMainThreadTasks\<close>
  returns exactly three tasks, in milliseconds from the start of TaskA: TaskA (index 0) is
  a root from 0 to 100 with duration 100, self time 50 and the single child TaskB; TaskB
  (index 1) runs from 5 to 55 with duration 50 and self time 20, has parent TaskA and the
  single child TaskC; TaskC (index 2) runs from 10 to 40 with duration 30 and self time 30,
  has parent TaskB and no child.
\<close>

theorem scenarioA_three_tasks:
  "getMainThreadTasks (scenarioA b) = Some (Inr
    [mkTask (mkEvent ''X'' ''TaskA'' b (Some 100000))
       (Num 0) (Num 100) None [1] (Num 100) (Num 50),
     mkTask (mkEvent ''B'' ''TaskB'' (b + 5000) None)
       (Num 5) (Num 55) (Some 0) [2] (Num 50) (Num 20),
     mkTask (mkEvent ''X'' ''TaskC'' (b + 10000) (Some 30000))
       (Num 10) (Num 40) (Some 1) [] (Num 30) (Num 30)])"
  using scenarioA_result[of b] by (simp add: scenarioA_tasks_def)

section \<open>The time normalizer\<close>

text \<open>
  Claim C8. When \<^verbatim>\<open>getMainThreadTasks\<close> returns a forest, let \<open>pre\<close> be the tasks after the
  three passes, before the second loop. The base time \<open>t0\<close> is \<open>0\<close> for an empty list and
  otherwise the start time of the first task, which has no parent; and every returned task
  is the task of \<open>pre\<close> at the same index with start and end rewritten to
  \<open>(x - t0) / 1000\<close> and duration and self time divided by \<open>1000\<close>.
\<close>

theorem times_rebased_and_scaled:
  assumes "getMainThreadTasks traceEvents = Some (Inr res)"
  shows "\<exists>pre t0. computedTasks traceEvents = Some (Inr pre) \<and> length res = length pre \<and>
           t0 = (if pre = [] then Num 0 else startTime (pre ! 0)) \<and>
           (pre = [] \<or> parent (pre ! 0) = None) \<and>
           (\<forall>i<length pre. res ! i = (pre ! i)
               \<lparr>startTime := num_div1000 (num_sub (startTime (pre ! i)) t0),
                endTime := num_div1000 (num_sub (endTime (pre ! i)) t0),
                duration := num_div1000 (duration (pre ! i)),
                selfTime := num_div1000 (selfTime (pre ! i))\<rparr>)"
proof -
  from getMainThreadTasks_Inr[OF assms] obtain pre where
    pre: "computedTasks traceEvents = Some (Inr pre)" and pd: "passes_done pre"
    and res: "res = map (rescale (firstTs_of pre)) pre" by blast
  have ok: "forest_ok pre" using pd by (simp add: passes_done_def)
  have t0: "firstTs_of pre = (if pre = [] then Num 0 else startTime (pre ! 0))"
    by (cases pre) (simp_all add: firstTs_of_def)
  have root: "pre = [] \<or> parent (pre ! 0) = None"
  proof (cases "pre = []")
    case False
    then have 0: "0 < length pre" by simp
    show ?thesis
    proof (cases "parent (pre ! 0)")
      case (Some p)
      from forest_ok_parent_less[OF ok 0 Some] show ?thesis by simp
    qed simp
  qed simp
  have "res ! i = (pre ! i)
       \<lparr>startTime := num_div1000 (num_sub (startTime (pre ! i)) (firstTs_of pre)),
        endTime := num_div1000 (num_sub (endTime (pre ! i)) (firstTs_of pre)),
        duration := num_div1000 (duration (pre ! i)),
        selfTime := num_div1000 (selfTime (pre ! i))\<rparr>" if "i < length pre" for i
    using that by (simp add: res rescale_def)
  with pre t0 root res show ?thesis by (intro exI[of _ pre] exI[of _ "firstTs_of pre"]) simp
qed

text \<open>Scenario A at the base time of the repository's test: TaskB ends at 55 ms.\<close>

theorem times_rebased_and_scaled_witness:
  "getMainThreadTasks (scenarioA 1241250325) = Some (Inr (scenarioA_tasks 1241250325)) \<and>
   computedTasks (scenarioA 1241250325) = Some (Inr (scenarioA_pre 1241250325)) \<and>
   startTime (scenarioA_pre 1241250325 ! 0) = Num 1241250325 \<and>
   endTime (scenarioA_pre 1241250325 ! 1) = Num 1241305325 \<and>
   endTime (scenarioA_tasks 1241250325 ! 1) = Num 55 \<and>
   scenarioA_tasks 1241250325 ! 1 = (scenarioA_pre 1241250325 ! 1)
     \<lparr>startTime := num_div1000 (num_sub (startTime (scenarioA_pre 1241250325 ! 1)) (Num 1241250325)),
      endTime := num_div1000 (num_sub (endTime (scenarioA_pre 1241250325 ! 1)) (Num 1241250325)),
      duration := num_div1000 (duration (scenarioA_pre 1241250325 ! 1)),
      selfTime := num_div1000 (selfTime (scenarioA_pre 1241250325 ! 1))\<rparr>"
proof -
  let ?b = "1241250325 :: rat"
  from times_rebased_and_scaled[OF scenarioA_result[of ?b]] obtain pre t0 where
    pre: "computedTasks (scenarioA ?b) = Some (Inr pre)"
    and t0: "t0 = (if pre = [] then Num 0 else startTime (pre ! 0))"
    and all: "\<forall>i<length pre. scenarioA_tasks ?b ! i = (pre ! i)
               \<lparr>startTime := num_div1000 (num_sub (startTime (pre ! i)) t0),
                endTime := num_div1000 (num_sub (endTime (pre ! i)) t0),
                duration := num_div1000 (duration (pre ! i)),
                selfTime := num_div1000 (selfTime (pre ! i))\<rparr>"
    by blast
  from pre have p: "pre = scenarioA_pre ?b" by (simp add: scenarioA_computed)
  have "t0 = Num ?b" unfolding t0 p by (simp add: scenarioA_pre_def mkTask_def)
  moreover have "1 < length pre" unfolding p by (simp add: scenarioA_pre_def)
  ultimately have "scenarioA_tasks ?b ! 1 = (scenarioA_pre ?b ! 1)
     \<lparr>startTime := num_div1000 (num_sub (startTime (scenarioA_pre ?b ! 1)) (Num ?b)),
      endTime := num_div1000 (num_sub (endTime (scenarioA_pre ?b ! 1)) (Num ?b)),
      duration := num_div1000 (duration (scenarioA_pre ?b ! 1)),
      selfTime := num_div1000 (selfTime (scenarioA_pre ?b ! 1))\<rparr>"
    using all p by blast
  moreover have "startTime (scenarioA_pre ?b ! 0) = Num ?b"
    "endTime (scenarioA_pre ?b ! 1) = Num 1241305325"
    "endTime (scenarioA_tasks ?b ! 1) = Num 55"
    by (simp_all add: scenarioA_pre_def scenarioA_tasks_def mkTask_def)
  ultimately show ?thesis using scenarioA_result[of ?b] scenarioA_computed[of ?b] by blast
qed

section \<open>A Begin event that is never closed\<close>

text \<open>
  Claim C10. Let the reconstruction succeed. A task is left with the end time \<^verbatim>\<open>NaN\<close>
  exactly when the filtered sequence has more Begin events than End events: a Begin event
  has not been closed. Then \<^verbatim>\<open>getMainThreadTasks\<close> returns no forest: the self time of that
  task is \<^verbatim>\<open>NaN\<close> and the second loop throws \<^verbatim>\<open>Invalid task timing data\<close>.
\<close>

theorem unclosed_begin_fails:
  assumes "createTasksFromEvents traceEvents = Some (Inr s)"
    and "findTracingStartedEvt traceEvents = Inr se"
  shows "(\<exists>i<length s. endTime (s ! i) = NaN)
           = (countPh se ''E'' traceEvents < countPh se ''B'' traceEvents) \<and>
         ((\<exists>i<length s. endTime (s ! i) = NaN) \<longrightarrow>
            getMainThreadTasks traceEvents = Some (Inl InvalidTimingError))"
proof (intro conjI impI)
  from created_open_count[OF assms]
  have "(0 < count_open s) = (countPh se ''E'' traceEvents < countPh se ''B'' traceEvents)"
    by linarith
  then show "(\<exists>i<length s. endTime (s ! i) = NaN)
           = (countPh se ''E'' traceEvents < countPh se ''B'' traceEvents)"
    by (simp add: count_open_pos)
next
  assume "\<exists>i<length s. endTime (s ! i) = NaN"
  then obtain i where i: "i < length s" "endTime (s ! i) = NaN" by blast
  let ?pre = "map (\<lambda>j. computed (skeleton s) j (s ! j)) [0..<length s]"
  from computedTasks_cases[of traceEvents] assms(1)
  have pre: "computedTasks traceEvents = Some (Inr ?pre)" by auto
  have "selfTime (?pre ! i) = NaN"
    using i
    by (simp add: computed_def setGroup_def setURL_def setTimes_def selfTimeOf_def durationOf_def)
  then have "\<not> isFinite (selfTime (rescale (firstTs_of ?pre) (?pre ! i)))" by simp
  moreover have "?pre ! i \<in> set ?pre" using i(1) by (intro nth_mem) simp
  ultimately have "\<exists>t\<in>set ?pre. \<not> isFinite (selfTime (rescale (firstTs_of ?pre) t))" by blast
  from normalizeLoop_fail[OF this] pre
  show "getMainThreadTasks traceEvents = Some (Inl InvalidTimingError)"
    by (simp add: getMainThreadTasks_def)
qed

text \<open>A trace that ends after a Begin event.\<close>

theorem unclosed_begin_fails_witness:
  "createTasksFromEvents unclosedBegin = Some (Inr
     [mkTask (mkEvent ''B'' ''TaskB'' 0 None) (Num 0) NaN None [] NaN NaN]) \<and>
   countPh (mkEvent ''I'' ''TracingStartedInPage'' 0 None) ''E'' unclosedBegin
     < countPh (mkEvent ''I'' ''TracingStartedInPage'' 0 None) ''B'' unclosedBegin \<and>
   getMainThreadTasks unclosedBegin = Some (Inl InvalidTimingError)"
proof -
  let ?s = "[mkTask (mkEvent ''B'' ''TaskB'' 0 None) (Num 0) NaN None [] NaN NaN]"
  let ?m = "mkEvent ''I'' ''TracingStartedInPage'' 0 None"
  have marker: "findTracingStartedEvt unclosedBegin = Inr ?m"
    unfolding unclosedBegin_def by (rule find_marker)
  have "endTime (?s ! 0) = NaN" by (simp add: mkTask_def)
  then have open_task: "\<exists>i<length ?s. endTime (?s ! i) = NaN" by auto
  from unclosed_begin_fails[OF unclosedBegin_created marker] open_task unclosedBegin_created
  show ?thesis by blast
qed

section \<open>Parents and children in time\<close>

text \<open>
  Claim C3 holds for no trace in which a Complete event lasts longer than the task it is
  nested in, and it needs the timestamps in order. In the first trace TaskB starts at
  10 ms inside TaskA, which ends at 100 ms, and lasts 200 ms. In the second the events are
  out of order: TaskB, at 5 ms, comes after TaskA, at 10 ms, and becomes its child.
\<close>

theorem child_outside_parent_counterexample:
  "getMainThreadTasks overrun = Some (Inr overrun_tasks) \<and>
   parent (overrun_tasks ! 1) = Some 0 \<and>
   endTime (overrun_tasks ! 0) = Num 100 \<and> endTime (overrun_tasks ! 1) = Num 210 \<and>
   \<not> num_le (endTime (overrun_tasks ! 1)) (endTime (overrun_tasks ! 0)) \<and>
   getMainThreadTasks unordered = Some (Inr unordered_tasks) \<and>
   parent (unordered_tasks ! 1) = Some 0 \<and>
   startTime (unordered_tasks ! 0) = Num 0 \<and> startTime (unordered_tasks ! 1) = Num (- 5) \<and>
   \<not> num_le (startTime (unordered_tasks ! 0)) (startTime (unordered_tasks ! 1))"
  by (simp add: overrun_result unordered_result)
     (simp add: overrun_tasks_def unordered_tasks_def mkTask_def)

text \<open>
  Claim C3, amended. Let the filtered events of the main thread have timestamps that never
  decrease. In every returned forest a task with a parent starts no earlier than the
  parent, and it ends no later than the parent when the parent was opened by a Begin event.
\<close>

theorem child_within_begin_parent:
  assumes "getMainThreadTasks traceEvents = Some (Inr res)"
    and "findTracingStartedEvt traceEvents = Inr se"
    and "sorted (map ts (filter (mainThreadEvent se) traceEvents))"
    and "i < length res" and "parent (res ! i) = Some p"
  shows "num_le (startTime (res ! p)) (startTime (res ! i)) \<and>
         (ph (event (res ! p)) = ''B'' \<longrightarrow> num_le (endTime (res ! i)) (endTime (res ! p)))"
proof -
  from getMainThreadTasks_from_created[OF assms(1)] obtain s z where
    s: "createTasksFromEvents traceEvents = Some (Inr s)" and ok: "forest_ok s"
    and len: "length res = length s"
    and all: "\<forall>j<length s. event (res ! j) = event (s ! j) \<and> parent (res ! j) = parent (s ! j) \<and>
           children (res ! j) = children (s ! j) \<and>
           startTime (res ! j) = num_div1000 (num_sub (startTime (s ! j)) (Num z)) \<and>
           endTime (res ! j) = num_div1000 (num_sub (endTime (s ! j)) (Num z)) \<and>
           isFinite (startTime (s ! j)) \<and> isFinite (endTime (s ! j))"
    by blast
  have fields: "event (res ! j) = event (s ! j) \<and> parent (res ! j) = parent (s ! j) \<and>
           children (res ! j) = children (s ! j) \<and>
           startTime (res ! j) = num_div1000 (num_sub (startTime (s ! j)) (Num z)) \<and>
           endTime (res ! j) = num_div1000 (num_sub (endTime (s ! j)) (Num z)) \<and>
           isFinite (startTime (s ! j)) \<and> isFinite (endTime (s ! j))" if "j < length s" for j
    using all that by blast
  from created_timing[OF s assms(2,3)] obtain T where
    so: "starts_ok T s" and pe: "parents_earlier s" and bc: "begin_contains s" by blast
  have i: "i < length s" using assms(4) len by simp
  have par: "parent (s ! i) = Some p" using fields[OF i] assms(5) by simp
  from forest_ok_parent_less[OF ok i par] i have p: "p < length s" by simp
  have "ts (event (s ! p)) \<le> ts (event (s ! i))" using pe i par by (simp add: parents_earlier_def)
  moreover have "startTime (s ! i) = Num (ts (event (s ! i)))" "startTime (s ! p) = Num (ts (event (s ! p)))"
    using so i p by (simp_all add: starts_ok_def)
  ultimately have start: "num_le (startTime (res ! p)) (startTime (res ! i))"
    using fields[OF i] fields[OF p] by (simp add: divide_right_mono)
  have "num_le (endTime (res ! i)) (endTime (res ! p))" if b: "ph (event (res ! p)) = ''B''"
  proof -
    from b fields[OF p] have "ph (event (s ! p)) = ''B''" by simp
    with bc i par have "endTime (s ! p) = NaN \<or>
        (\<exists>e ep. endTime (s ! i) = Num e \<and> endTime (s ! p) = Num ep \<and> e \<le> ep)"
      unfolding begin_contains_def by blast
    moreover have "endTime (s ! p) \<noteq> NaN" using fields[OF p] by auto
    ultimately obtain e ep where "endTime (s ! i) = Num e" "endTime (s ! p) = Num ep" "e \<le> ep"
      by blast
    then show ?thesis using fields[OF i] fields[OF p] by (simp add: divide_right_mono)
  qed
  with start show ?thesis by blast
qed

text \<open>
  Scenario A, whose timestamps are in order: TaskC, from 10 ms to 40 ms, lies in TaskB,
  which a Begin event opened at 5 ms and an End event closed at 55 ms.
\<close>

theorem child_within_begin_parent_witness:
  "getMainThreadTasks (scenarioA 0) = Some (Inr (scenarioA_tasks 0)) \<and>
   sorted (map ts (filter (mainThreadEvent (mkEvent ''I'' ''TracingStartedInPage'' 0 None))
                     (scenarioA 0))) \<and>
   parent (scenarioA_tasks 0 ! 2) = Some 1 \<and>
   ph (event (scenarioA_tasks 0 ! 1)) = ''B'' \<and>
   num_le (startTime (scenarioA_tasks 0 ! 1)) (startTime (scenarioA_tasks 0 ! 2)) \<and>
   num_le (endTime (scenarioA_tasks 0 ! 2)) (endTime (scenarioA_tasks 0 ! 1))"
proof -
  let ?m = "mkEvent ''I'' ''TracingStartedInPage'' 0 None"
  have marker: "findTracingStartedEvt (scenarioA 0) = Inr ?m"
    unfolding scenarioA_def by (rule find_marker)
  have order: "sorted (map ts (filter (mainThreadEvent ?m) (scenarioA 0)))"
    by (simp add: scenarioA_def mainThreadEvent_def mkEvent_sel)
  have len: "2 < length (scenarioA_tasks 0)" by (simp add: scenarioA_tasks_def)
  have par: "parent (scenarioA_tasks 0 ! 2) = Some 1"
    and b: "ph (event (scenarioA_tasks 0 ! 1)) = ''B''"
    by (simp_all add: scenarioA_tasks_def mkTask_def mkEvent_sel)
  from child_within_begin_parent[OF scenarioA_result[of 0] marker order len par] b
    scenarioA_result[of 0] order par
  show ?thesis by blast
qed

section \<open>Attributable URLs\<close>

lemma taskURL_candidates: "taskURL ev = str_or (payloadURL ev) (firstFrameURL ev)"
  by (simp add: taskURL_def payloadURL_def firstFrameURL_def Let_def
        split: option.splits list.splits)

text \<open>
  Claim C4. In every returned forest the attributable URL of a task is the one of its
  parent when the parent has one (a non-empty string, as \<^verbatim>\<open>||\<close> tests it), and otherwise
  the task's own candidate; a root gets its own candidate. The own candidate is the URL of
  the event's payload when there is one, otherwise the URL of the first frame of its call
  stack, otherwise nothing. So a task below a parent with a URL has the parent's URL,
  whatever its own candidate is.
\<close>

theorem url_of_nearest_ancestor:
  assumes "getMainThreadTasks traceEvents = Some (Inr res)" and "i < length res"
  shows "attributableURL (res ! i) =
           (case parent (res ! i) of
              None \<Rightarrow> taskURL (event (res ! i))
            | Some p \<Rightarrow> if truthy (attributableURL (res ! p)) then attributableURL (res ! p)
                        else taskURL (event (res ! i))) \<and>
         taskURL (event (res ! i)) =
           (if truthy (payloadURL (event (res ! i))) then payloadURL (event (res ! i))
            else firstFrameURL (event (res ! i)))"
proof -
  from getMainThreadTasks_Inr[OF assms(1)] obtain pre where
    pd: "passes_done pre" and res: "res = map (rescale (firstTs_of pre)) pre" by blast
  have i: "i < length pre" using assms(2) res by simp
  have ok: "forest_ok pre" using pd by (simp add: passes_done_def)
  have up: "p < length pre" if "parent (pre ! i) = Some p" for p
    using forest_ok_parent_less[OF ok i that] i by simp
  show ?thesis
    using passes_done_fields(3)[OF pd i] i up
    by (auto simp: res str_or_def taskURL_candidates split: option.splits)
qed

text \<open>Scenario D: the child has the URL of its parent, not the one of its call stack.\<close>

theorem url_of_nearest_ancestor_witness:
  "getMainThreadTasks scenarioD = Some (Inr scenarioD_tasks) \<and>
   parent (scenarioD_tasks ! 1) = Some 0 \<and>
   attributableURL (scenarioD_tasks ! 0) = Some ''https://example.com/a.js'' \<and>
   taskURL (event (scenarioD_tasks ! 1)) = Some ''https://example.com/b.js'' \<and>
   attributableURL (scenarioD_tasks ! 1) = Some ''https://example.com/a.js''"
proof -
  have len: "1 < length scenarioD_tasks" by (simp add: scenarioD_tasks_def)
  have par: "parent (scenarioD_tasks ! 1) = Some 0"
    and root: "attributableURL (scenarioD_tasks ! 0) = Some ''https://example.com/a.js''"
    and payload: "payloadURL (event (scenarioD_tasks ! 1)) = None"
    and frame: "firstFrameURL (event (scenarioD_tasks ! 1)) = Some ''https://example.com/b.js''"
    by (simp_all add: scenarioD_tasks_def mkTask_def mkEvent_def payloadURL_def firstFrameURL_def)
  from url_of_nearest_ancestor[OF scenarioD_result len]
  have "attributableURL (scenarioD_tasks ! 1) = Some ''https://example.com/a.js''"
    and "taskURL (event (scenarioD_tasks ! 1)) = Some ''https://example.com/b.js''"
    by (simp_all add: par root payload frame del: One_nat_def)
  with par root scenarioD_result show ?thesis by blast
qed

section \<open>Groups\<close>

text \<open>
  Claim C2 puts the group of the parent first. In Scenario C the layout task is a child of
  the script evaluation, whose group is set, and its group is the one of its own name.
\<close>

theorem group_of_parent_counterexample:
  "getMainThreadTasks scenarioC = Some (Inr scenarioC_tasks) \<and>
   parent (scenarioC_tasks ! 2) = Some 0 \<and>
   group (scenarioC_tasks ! 0) = Some (Group ScriptEvaluationGroup) \<and>
   group (scenarioC_tasks ! 2) = Some (Group StyleLayoutGroup) \<and>
   group (scenarioC_tasks ! 2) \<noteq> group (scenarioC_tasks ! 0)"
  by (simp add: scenarioC_result)
     (simp add: scenarioC_tasks_def mkTask_def StyleLayoutGroup_def ScriptEvaluationGroup_def)

text \<open>
  Claim C2, amended. In every returned forest the group of a task is the group that the
  reverse lookup lists for its event name when the name is mapped; when the read of the
  reverse lookup under the name gives nothing at all and the task has a parent with a
  group, it is the group of the parent. Nothing is said of a name that the lookup object
  inherits.
\<close>

theorem group_own_then_parent:
  assumes "getMainThreadTasks traceEvents = Some (Inr res)" and "i < length res"
  shows "(\<forall>g. taskNameToGroup (name (event (res ! i))) = Some g \<longrightarrow>
              group (res ! i) = Some (Group g)) \<and>
         (\<forall>p v. getProperty taskNameToGroup (name (event (res ! i))) = None \<and>
                parent (res ! i) = Some p \<and> group (res ! p) = Some v \<longrightarrow>
              group (res ! i) = Some v)"
proof -
  from getMainThreadTasks_Inr[OF assms(1)] obtain pre where
    pd: "passes_done pre" and res: "res = map (rescale (firstTs_of pre)) pre" by blast
  have i: "i < length pre" using assms(2) res by simp
  have ok: "forest_ok pre" using pd by (simp add: passes_done_def)
  have up: "p < length pre" if "parent (pre ! i) = Some p" for p
    using forest_ok_parent_less[OF ok i that] i by simp
  show ?thesis
    using passes_done_fields(4)[OF pd i] i up
    by (auto simp: res obj_or_def getProperty_def split: option.splits)
qed

text \<open>
  Scenario C: the layout task has the group of its own name, and the task with the
  unmapped name has the group of its parent.
\<close>

theorem group_own_then_parent_witness:
  "getMainThreadTasks scenarioC = Some (Inr scenarioC_tasks) \<and>
   taskNameToGroup (name (event (scenarioC_tasks ! 2))) = Some StyleLayoutGroup \<and>
   group (scenarioC_tasks ! 2) = Some (Group StyleLayoutGroup) \<and>
   getProperty taskNameToGroup (name (event (scenarioC_tasks ! 1))) = None \<and>
   parent (scenarioC_tasks ! 1) = Some 0 \<and>
   group (scenarioC_tasks ! 0) = Some (Group ScriptEvaluationGroup) \<and>
   group (scenarioC_tasks ! 1) = Some (Group ScriptEvaluationGroup)"
proof -
  have len: "2 < length scenarioC_tasks" "1 < length scenarioC_tasks"
    by (simp_all add: scenarioC_tasks_def)
  have own: "taskNameToGroup (name (event (scenarioC_tasks ! 2))) = Some StyleLayoutGroup"
    and none: "getProperty taskNameToGroup (name (event (scenarioC_tasks ! 1))) = None"
    and par: "parent (scenarioC_tasks ! 1) = Some 0"
    and root: "group (scenarioC_tasks ! 0) = Some (Group ScriptEvaluationGroup)"
    by (simp_all add: scenarioC_tasks_def mkTask_def mkEvent_sel scenario_names_mapped
          scenario_reads)
  from group_own_then_parent[OF scenarioC_result len(1)] own
  have 2: "group (scenarioC_tasks ! 2) = Some (Group StyleLayoutGroup)" by blast
  from group_own_then_parent[OF scenarioC_result len(2)] none par root
  have 1: "group (scenarioC_tasks ! 1) = Some (Group ScriptEvaluationGroup)" by blast
  from 1 2 own none par root scenarioC_result show ?thesis by blast
qed

text \<open>
  A name that the lookup object inherits: the read gives the inherited property, which is
  truthy, and the task keeps it as its group, whatever the group of its parent.
\<close>

lemma inherited_name_group:
  "getMainThreadTasks inheritedName = Some (Inr inheritedName_tasks) \<and>
   parent (inheritedName_tasks ! 1) = Some 0 \<and>
   group (inheritedName_tasks ! 0) = Some (Group ScriptEvaluationGroup) \<and>
   group (inheritedName_tasks ! 1) = Some (Inherited ''constructor'')"
  by (simp add: inheritedName_result) (simp add: inheritedName_tasks_def mkTask_def)

section \<open>The group Other\<close>

lemma taskGroups_Other: "taskGroups ''Other'' = Some OtherGroup"
  unfolding taskGroups_def registry_def groups_foldl_addGroup
  by (simp add: taskGroups_literal_def withId_def OtherGroup_def)

lemma map_of_nameEntries_id:
  "map_of (concat (map nameEntries es)) n = Some g \<Longrightarrow> id_field g \<in> fst ` set es"
proof (induction es)
  case Nil
  then show ?case by simp
next
  case (Cons e es)
  show ?case
  proof (cases "map_of (nameEntries e) n")
    case None
    with Cons show ?thesis by (simp add: map_add_def)
  next
    case (Some h)
    then have "(n, h) \<in> set (nameEntries e)" by (rule map_of_SomeD)
    then have "h = withId e" by (auto simp: nameEntries_def)
    moreover from Some Cons.prems have "g = h" by (simp add: map_add_def)
    ultimately show ?thesis by (simp add: withId_def)
  qed
qed

text \<open>
  Claim C9 says that no raw event name is mapped to the group \<open>Other\<close>. The object literal
  gives \<open>Other\<close> three names, and the initialisation loop enters them like all others:
  \<^verbatim>\<open>MessageLoop::RunTask\<close> is mapped to \<open>Other\<close>.
\<close>

theorem Other_names_counterexample:
  "taskGroups ''Other'' = Some OtherGroup \<and>
   taskNameToGroup ''MessageLoop::RunTask'' = Some OtherGroup"
  by (simp add: taskGroups_Other taskNameToGroup_map_of taskGroups_literal_def nameEntries_def
        withId_def OtherGroup_def)

text \<open>
  Claim C9, amended. The reverse lookup maps a raw event name to the group \<open>Other\<close> exactly
  when it is one of the three names that the literal lists for \<open>Other\<close>.
\<close>

theorem Other_names:
  "(taskNameToGroup n = taskGroups ''Other'') =
   (n \<in> set (traceEventNames OtherGroup))"
proof -
  let ?rest = "rev (butlast taskGroups_literal)"
  have split: "concat (map nameEntries (rev taskGroups_literal)) =
      nameEntries (last taskGroups_literal) @ concat (map nameEntries ?rest)"
    by (simp add: taskGroups_literal_def)
  show ?thesis
proof (cases "n \<in> set (traceEventNames OtherGroup)")
  case True
  then have "n = ''MessageLoop::RunTask'' \<or> n = ''TaskQueueManager::ProcessTaskFromWorkQueue''
      \<or> n = ''ThreadControllerImpl::DoWork''"
    by (simp add: OtherGroup_def)
  then have "map_of (nameEntries (last taskGroups_literal)) n = Some OtherGroup"
    by (auto simp: taskGroups_literal_def nameEntries_def withId_def OtherGroup_def)
  then have "taskNameToGroup n = Some OtherGroup"
    unfolding taskNameToGroup_map_of split by (simp add: map_add_def)
  with True show ?thesis by (simp add: taskGroups_Other)
next
  case False
  have miss: "map_of (nameEntries (last taskGroups_literal)) n = None"
    using False by (simp add: taskGroups_literal_def nameEntries_def OtherGroup_def)
  have "taskNameToGroup n = map_of (concat (map nameEntries ?rest)) n"
    unfolding taskNameToGroup_map_of split using miss by (simp add: map_add_def)
  moreover have "map_of (concat (map nameEntries ?rest)) n \<noteq> Some OtherGroup"
  proof
    assume "map_of (concat (map nameEntries ?rest)) n = Some OtherGroup"
    then have "id_field OtherGroup \<in> fst ` set ?rest" by (rule map_of_nameEntries_id)
    then show False by (simp add: OtherGroup_def taskGroups_literal_def)
  qed
  ultimately show ?thesis using False by (simp add: taskGroups_Other)
qed
qed

section \<open>End events\<close>

lemma createLoop_filter:
  "createLoop s (filter (mainThreadEvent s) evs) st = createLoop s evs st"
  by (induction evs arbitrary: st) (auto simp: mainThreadEvent_def split: option.splits sum.splits)

lemma createLoop_append:
  "createLoop s (xs @ ys) st =
     (case createLoop s xs st of
        None \<Rightarrow> None
      | Some (Inl e) \<Rightarrow> Some (Inl e)
      | Some (Inr st') \<Rightarrow> createLoop s ys st')"
  by (induction xs arbitrary: st) (auto split: option.splits sum.splits)

lemma createLoop_reaches:
  assumes "filter (mainThreadEvent s) traceEvents = before @ ev # after"
    and "createLoop s before st0 = Some (Inr st)"
  shows "createLoop s traceEvents st0 =
     (case processEvent ev st of
        None \<Rightarrow> None
      | Some (Inl e) \<Rightarrow> Some (Inl e)
      | Some (Inr st') \<Rightarrow> createLoop s after st')"
proof -
  have "ev \<in> set (filter (mainThreadEvent s) traceEvents)" using assms(1) by simp
  then have ev: "mainThreadEvent s ev" by simp
  have "createLoop s traceEvents st0 = createLoop s (before @ ev # after) st0"
    using assms(1) createLoop_filter[of s traceEvents st0] by simp
  also have "\<dots> = createLoop s (ev # after) st"
    using assms(2) by (simp add: createLoop_append)
  finally show ?thesis using ev by (auto simp: mainThreadEvent_def)
qed

lemma getMainThreadTasks_create_error:
  assumes "findTracingStartedEvt traceEvents = Inr s"
    and "createLoop s traceEvents initialState = Some (Inl e)"
  shows "getMainThreadTasks traceEvents = Some (Inl e)"
  using assms
  by (simp add: getMainThreadTasks_def computedTasks_def createTasksFromEvents_def initialState_def)

text \<open>
  Claim C6. Let the trace have its marker, and let \<open>ev\<close> be an End event of the filtered
  sequence such that the events before it are processed without error and the
  \<^verbatim>\<open>while\<close> loop for \<open>ev\<close> ends with no current task. Then \<^verbatim>\<open>getMainThreadTasks\<close> fails
  with \<open>UnbalancedTraceError\<close> (the first throw of \<^verbatim>\<open>Fatal trace logic error\<close>): no forest
  is returned.
\<close>

theorem end_without_open_task:
  assumes "findTracingStartedEvt traceEvents = Inr s"
    and "filter (mainThreadEvent s) traceEvents = before @ ev # after"
    and "createLoop s before initialState = Some (Inr st)"
    and "closeOut (tasks_of st) (ts ev) (currentTask_of st) = Some None"
    and "ph ev = ''E''"
  shows "getMainThreadTasks traceEvents = Some (Inl UnbalancedTraceError)"
proof -
  have "processEvent ev st = Some (Inl UnbalancedTraceError)"
    using assms(4,5) by (simp add: processEvent_def)
  then have "createLoop s traceEvents initialState = Some (Inl UnbalancedTraceError)"
    using createLoop_reaches[OF assms(2,3)] by simp
  then show ?thesis using assms(1) by (rule getMainThreadTasks_create_error[rotated])
qed

text \<open>Scenario B: the End event is the first event of the main thread.\<close>

theorem end_without_open_task_witness:
  "getMainThreadTasks scenarioB = Some (Inl UnbalancedTraceError)"
proof -
  let ?s = "mkEvent ''I'' ''TracingStartedInPage'' 0 None"
  let ?e = "mkEvent ''E'' ''TaskB'' 5000 None"
  have 1: "findTracingStartedEvt scenarioB = Inr ?s"
    unfolding scenarioB_def by (rule find_marker)
  have 2: "filter (mainThreadEvent ?s) scenarioB = [] @ ?e # []"
    by (simp add: scenarioB_def mainThreadEvent_def mkEvent_sel)
  have 3: "createLoop ?s [] initialState = Some (Inr initialState)" by simp
  have 4: "closeOut (tasks_of initialState) (ts ?e) (currentTask_of initialState) = Some None"
    by (simp add: initialState_def closeOut.simps)
  have 5: "ph ?e = ''E''" by (simp add: mkEvent_sel)
  show ?thesis by (rule end_without_open_task[OF 1 2 3 4 5])
qed

text \<open>
  Claim C7. Let \<open>ev\<close> be an End event of the filtered sequence, reached without error, for
  which the \<^verbatim>\<open>while\<close> loop ends at the current task \<open>c\<close>. If \<open>c\<close> was not opened by a Begin
  event, \<^verbatim>\<open>getMainThreadTasks\<close> fails with \<open>MismatchedEventError\<close>. If it was, the event
  sets the end time of \<open>c\<close> to its own timestamp and the parent of \<open>c\<close> becomes the current
  task.
\<close>

theorem end_of_current_task:
  assumes "findTracingStartedEvt traceEvents = Inr s"
    and "filter (mainThreadEvent s) traceEvents = before @ ev # after"
    and "createLoop s before initialState = Some (Inr st)"
    and "closeOut (tasks_of st) (ts ev) (currentTask_of st) = Some (Some c)"
    and "ph ev = ''E''"
  shows "(ph (event (tasks_of st ! c)) \<noteq> ''B'' \<longrightarrow>
            getMainThreadTasks traceEvents = Some (Inl MismatchedEventError)) \<and>
         (ph (event (tasks_of st ! c)) = ''B'' \<longrightarrow>
            processEvent ev st = Some (Inr
              \<lparr>tasks_of = (tasks_of st)[c := (tasks_of st ! c)\<lparr>endTime := Num (ts ev)\<rparr>],
               currentTask_of = parent (tasks_of st ! c)\<rparr>))"
proof (intro conjI impI)
  assume "ph (event (tasks_of st ! c)) \<noteq> ''B''"
  then have "processEvent ev st = Some (Inl MismatchedEventError)"
    using assms(4,5) by (simp add: processEvent_def)
  then have "createLoop s traceEvents initialState = Some (Inl MismatchedEventError)"
    using createLoop_reaches[OF assms(2,3)] by simp
  then show "getMainThreadTasks traceEvents = Some (Inl MismatchedEventError)"
    using assms(1) by (rule getMainThreadTasks_create_error[rotated])
next
  assume "ph (event (tasks_of st ! c)) = ''B''"
  then show "processEvent ev st = Some (Inr
      \<lparr>tasks_of = (tasks_of st)[c := (tasks_of st ! c)\<lparr>endTime := Num (ts ev)\<rparr>],
       currentTask_of = parent (tasks_of st ! c)\<rparr>)"
    using assms(4,5) by (simp add: processEvent_def)
qed

text \<open>
  An End event at 5 ms inside a Complete task of 100 ms, and the same End event inside a
  task opened by a Begin event.
\<close>

theorem end_of_current_task_witness:
  "getMainThreadTasks endOfComplete = Some (Inl MismatchedEventError) \<and>
   processEvent (mkEvent ''E'' ''TaskB'' 5000 None)
     \<lparr>tasks_of = [mkTask (mkEvent ''B'' ''TaskB'' 0 None) (Num 0) NaN None [] NaN NaN],
      currentTask_of = Some 0\<rparr>
   = Some (Inr
     \<lparr>tasks_of = [mkTask (mkEvent ''B'' ''TaskB'' 0 None) (Num 0) (Num 5000) None [] NaN NaN],
      currentTask_of = None\<rparr>)"
proof
  let ?s = "mkEvent ''I'' ''TracingStartedInPage'' 0 None"
  let ?a = "mkEvent ''X'' ''TaskA'' 0 (Some 100000)"
  let ?e = "mkEvent ''E'' ''TaskA'' 5000 None"
  let ?st = "\<lparr>tasks_of = [mkTask ?a (Num 0) (Num 100000) None [] NaN NaN],
              currentTask_of = Some 0\<rparr>"
  have 1: "findTracingStartedEvt endOfComplete = Inr ?s"
    unfolding endOfComplete_def by (rule find_marker)
  have 2: "filter (mainThreadEvent ?s) endOfComplete = [?a] @ ?e # []"
    by (simp add: endOfComplete_def mainThreadEvent_def mkEvent_sel)
  have 3: "createLoop ?s [?a] initialState = Some (Inr ?st)"
    by (simp add: initialState_def mkEvent_sel processEvent_def closeOut.simps
          createNewTaskNode_def taskGroups_other mkTask_def)
  have 4: "closeOut (tasks_of ?st) (ts ?e) (currentTask_of ?st) = Some (Some 0)"
    by (simp add: closeOut.simps mkTask_def mkEvent_sel)
  have 5: "ph ?e = ''E''" by (simp add: mkEvent_sel)
  have 6: "ph (event (tasks_of ?st ! 0)) \<noteq> ''B''" by (simp add: mkTask_def mkEvent_sel)
  from end_of_current_task[OF 1 2 3 4 5] 6
  show "getMainThreadTasks endOfComplete = Some (Inl MismatchedEventError)" by blast
next
  let ?s = "mkEvent ''I'' ''TracingStartedInPage'' 0 None"
  let ?b = "mkEvent ''B'' ''TaskB'' 0 None"
  let ?e = "mkEvent ''E'' ''TaskB'' 5000 None"
  let ?st = "\<lparr>tasks_of = [mkTask ?b (Num 0) NaN None [] NaN NaN], currentTask_of = Some 0\<rparr>"
  have 1: "findTracingStartedEvt endOfBegin = Inr ?s"
    unfolding endOfBegin_def by (rule find_marker)
  have 2: "filter (mainThreadEvent ?s) endOfBegin = [?b] @ ?e # []"
    by (simp add: endOfBegin_def mainThreadEvent_def mkEvent_sel)
  have 3: "createLoop ?s [?b] initialState = Some (Inr ?st)"
    by (simp add: initialState_def mkEvent_sel processEvent_def closeOut.simps
          createNewTaskNode_def taskGroups_other mkTask_def)
  have 4: "closeOut (tasks_of ?st) (ts ?e) (currentTask_of ?st) = Some (Some 0)"
    by (simp add: closeOut.simps mkTask_def mkEvent_sel)
  have 5: "ph ?e = ''E''" by (simp add: mkEvent_sel)
  have 6: "ph (event (tasks_of ?st ! 0)) = ''B''" by (simp add: mkTask_def mkEvent_sel)
  from end_of_current_task[OF 1 2 3 4 5] 6
  have "processEvent ?e ?st = Some (Inr
      \<lparr>tasks_of = (tasks_of ?st)[0 := (tasks_of ?st ! 0)\<lparr>endTime := Num (ts ?e)\<rparr>],
       currentTask_of = parent (tasks_of ?st ! 0)\<rparr>)" by blast
  then show "processEvent ?e ?st = Some (Inr
     \<lparr>tasks_of = [mkTask ?b (Num 0) (Num 5000) None [] NaN NaN], currentTask_of = None\<rparr>)"
    by (simp add: mkTask_def mkEvent_sel)
qed

end
